theory Spec2Isabelle
  imports Complex_Main "HOL-Library.Word" "HOL-Library.Finite_Map" "HOL-Library.Multiset"
begin

section \<open>Go values held in an interface (\<open>any\<close>)\<close>

text \<open>
  Row values and key values reach the program as Go \<open>any\<close>. The datatype lists the
  dynamic types that \<open>normalizeValue\<close> and \<open>AnonymiseRow\<close> distinguish, on a 64-bit
  platform (where \<open>int\<close> and \<open>uint\<close> are 64 bits wide). A floating-point number is
  modelled by the value it denotes: not-a-number, an infinity with its sign, or a real
  number (the two zeros denote the same number and compare equal in Go). A Go string and
  a byte slice are both sequences of bytes. \<open>VOther ty v\<close> stands for a comparable value
  of any other dynamic type \<open>ty\<close> that \<open>==\<close> finds equal to itself (a \<open>time.Time\<close>,
  say), \<open>VOtherNaN ty v\<close> for a comparable value of another dynamic type that holds a
  not-a-number (a \<open>complex128\<close> with such a part, an array or struct with such a
  field), and \<open>VUncomparable\<close> for a value whose dynamic type cannot be a map key (a
  slice other than a byte slice, a map, a function).
\<close>

datatype gofloat = FNaN | FInf bool | FNum real

datatype "value" =
    VNil
  | VInt "64 word"
  | VInt8 "8 word"
  | VInt16 "16 word"
  | VInt32 "32 word"
  | VInt64 "64 word"
  | VUint "64 word"
  | VUint8 "8 word"
  | VUint16 "16 word"
  | VUint32 "32 word"
  | VUint64 "64 word"
  | VFloat32 gofloat
  | VFloat64 gofloat
  | VBytes string
  | VString string
  | VBool bool
  | VOther string string
  | VOtherNaN string string
  | VUncomparable

section \<open>Foreign-key tracker (internal/fktracker/tracker.go)\<close>

text \<open>
  \<open>normalizeValue\<close>: the type switch of the source, case by case. A signed integer is
  sign-extended to 64 bits (\<open>scast\<close>), an unsigned one zero-extended (\<open>ucast\<close>); a
  \<open>uint\<close> or \<open>uint64\<close> keeps its 64 bits and is read as signed from then on. Widening a
  \<open>float32\<close> to \<open>float64\<close> keeps the number.
\<close>

fun normalizeValue :: "value \<Rightarrow> value" where
  "normalizeValue (VInt v) = VInt64 v"
| "normalizeValue (VInt8 v) = VInt64 (scast v)"
| "normalizeValue (VInt16 v) = VInt64 (scast v)"
| "normalizeValue (VInt32 v) = VInt64 (scast v)"
| "normalizeValue (VUint v) = VInt64 (ucast v)"
| "normalizeValue (VUint8 v) = VInt64 (ucast v)"
| "normalizeValue (VUint16 v) = VInt64 (ucast v)"
| "normalizeValue (VUint32 v) = VInt64 (ucast v)"
| "normalizeValue (VUint64 v) = VInt64 (ucast v)"
| "normalizeValue (VFloat32 v) = VFloat64 v"
| "normalizeValue (VBytes v) = VString v"
| "normalizeValue v = v"

text \<open>
  A Go map with keys of interface type compares keys with \<open>==\<close>: equal dynamic types
  and equal values, where a value that is or holds a not-a-number (\<open>is_nan\<close>) differs
  from everything, itself included. Using a key of an uncomparable dynamic type panics.
\<close>

fun is_nan :: "value \<Rightarrow> bool" where
  "is_nan (VFloat32 FNaN) = True"
| "is_nan (VFloat64 FNaN) = True"
| "is_nan (VOtherNaN ty v) = True"
| "is_nan v = False"

fun hashable :: "value \<Rightarrow> bool" where
  "hashable VUncomparable = False"
| "hashable (VBytes v) = False"
| "hashable v = True"

definition key_eq :: "value \<Rightarrow> value \<Rightarrow> bool" where
  "key_eq a b = (a = b \<and> \<not> is_nan a)"

text \<open>
  The set \<open>map[any]struct{}\<close> is the list of its keys: \<open>set_insert\<close> is the assignment
  \<open>m[k] = struct{}{}\<close>, which adds an entry unless an equal key is there,
  \<open>set_member\<close> the lookup \<open>_, found := m[k]\<close>, and \<open>length\<close> is \<open>len\<close>.
\<close>

definition set_member :: "value \<Rightarrow> value list \<Rightarrow> bool" where
  "set_member k ks = list_ex (key_eq k) ks"

definition set_insert :: "value \<Rightarrow> value list \<Rightarrow> value list" where
  "set_insert k ks = (if set_member k ks then ks else ks @ [k])"

datatype panic = HashOfUnhashableType

record Tracker =
  exportedKeys :: "string \<rightharpoonup> value list"

definition NewTracker :: Tracker where
  "NewTracker = \<lparr>exportedKeys = Map.empty\<rparr>"

definition makeKey :: "string \<Rightarrow> string \<Rightarrow> string" where
  "makeKey table column = table @ ''.'' @ column"

definition RecordValue :: "string \<Rightarrow> string \<Rightarrow> value \<Rightarrow> Tracker \<Rightarrow> panic + Tracker" where
  "RecordValue table column v t =
     (if v = VNil then Inr t
      else
        let key = makeKey table column;
            vals = (case exportedKeys t key of None \<Rightarrow> [] | Some ks \<Rightarrow> ks);
            normalised = normalizeValue v
        in if hashable normalised
           then Inr (t\<lparr>exportedKeys := (exportedKeys t)(key \<mapsto> set_insert normalised vals)\<rparr>)
           else Inl HashOfUnhashableType)"

definition HasValue :: "string \<Rightarrow> string \<Rightarrow> value \<Rightarrow> Tracker \<Rightarrow> panic + bool" where
  "HasValue table column v t =
     (if v = VNil then Inr True
      else
        case exportedKeys t (makeKey table column) of
          None \<Rightarrow> Inr False
        | Some vals \<Rightarrow>
            let normalised = normalizeValue v
            in if hashable normalised then Inr (set_member normalised vals)
               else Inl HashOfUnhashableType)"

definition GetExportedCount :: "string \<Rightarrow> string \<Rightarrow> Tracker \<Rightarrow> nat" where
  "GetExportedCount table column t =
     (case exportedKeys t (makeKey table column) of None \<Rightarrow> 0 | Some vals \<Rightarrow> length vals)"

text \<open>A run of the tracker: the values recorded one after the other.\<close>

fun record_all :: "(string \<times> string \<times> value) list \<Rightarrow> Tracker \<Rightarrow> panic + Tracker" where
  "record_all [] t = Inr t"
| "record_all ((table, column, v) # rest) t =
     (case RecordValue table column v t of
        Inl p \<Rightarrow> Inl p
      | Inr t' \<Rightarrow> record_all rest t')"


section \<open>Properties of the foreign-key tracker\<close>

lemma set_member_Nil [simp]: "set_member k [] = False"
  by (simp add: set_member_def)

lemma set_member_set_insert:
  "set_member x (set_insert k ks) \<longleftrightarrow> set_member x ks \<or> (x = k \<and> \<not> is_nan k)"
  by (auto simp: set_insert_def set_member_def key_eq_def list_ex_iff)

lemma HasValue_RecordValue:
  assumes "RecordValue tb c v t = Inr t'" and "x \<noteq> VNil" and "hashable (normalizeValue x)"
  shows "HasValue tb' c' x t' =
     Inr (HasValue tb' c' x t = Inr True \<or>
          (v \<noteq> VNil \<and> makeKey tb' c' = makeKey tb c \<and> normalizeValue x = normalizeValue v
             \<and> \<not> is_nan (normalizeValue v)))"
  using assms
  by (auto simp: RecordValue_def HasValue_def Let_def set_member_set_insert
      split: if_splits option.splits)

lemma HasValue_mono:
  assumes "RecordValue tb c v t = Inr t'" and "HasValue tb' c' x t = Inr True"
  shows "HasValue tb' c' x t' = Inr True"
  using assms
  by (auto simp: RecordValue_def HasValue_def Let_def set_member_set_insert
      split: if_splits option.splits)

lemma record_all_mono:
  "record_all ops t = Inr t' \<Longrightarrow> HasValue tb c x t = Inr True \<Longrightarrow> HasValue tb c x t' = Inr True"
proof (induction ops arbitrary: t)
  case Nil
  then show ?case by simp
next
  case (Cons a ops)
  obtain tb' c' v where a: "a = (tb', c', v)" by (cases a)
  from Cons.prems(1) obtain t1
    where r: "RecordValue tb' c' v t = Inr t1" and rest: "record_all ops t1 = Inr t'"
    by (auto simp: a split: sum.splits)
  from HasValue_mono[OF r Cons.prems(2)] have "HasValue tb c x t1 = Inr True" .
  from Cons.IH[OF rest this] show ?case .
qed

lemma RecordValue_then_HasValue:
  assumes "RecordValue tb c v t = Inr t'" and "v \<noteq> VNil" and "\<not> is_nan (normalizeValue v)"
    and "normalizeValue x = normalizeValue v"
  shows "HasValue tb c x t' = Inr True"
  using assms
  by (auto simp: RecordValue_def HasValue_def Let_def set_member_set_insert
      split: if_splits option.splits)

lemma record_all_has:
  "record_all ops t = Inr t' \<Longrightarrow> (tb, c, v) \<in> set ops \<Longrightarrow> v \<noteq> VNil \<Longrightarrow>
   \<not> is_nan (normalizeValue v) \<Longrightarrow> normalizeValue x = normalizeValue v \<Longrightarrow>
   HasValue tb c x t' = Inr True"
proof (induction ops arbitrary: t)
  case Nil
  then show ?case by simp
next
  case (Cons a ops)
  obtain tb' c' w where a: "a = (tb', c', w)" by (cases a)
  from Cons.prems(1) obtain t1
    where r: "RecordValue tb' c' w t = Inr t1" and rest: "record_all ops t1 = Inr t'"
    by (auto simp: a split: sum.splits)
  show ?case
  proof (cases "(tb, c, v) \<in> set ops")
    case True
    from Cons.IH[OF rest True Cons.prems(3,4,5)] show ?thesis .
  next
    case False
    with Cons.prems(2) a have eq: "tb' = tb" "c' = c" "w = v" by auto
    have "HasValue tb c x t1 = Inr True"
      using RecordValue_then_HasValue[OF r[unfolded eq] Cons.prems(3,4,5)] .
    from record_all_mono[OF rest this] show ?thesis .
  qed
qed

lemma sint_u64: "sint (w :: 64 word) = (if uint w < 2^63 then uint w else uint w - 2^64)"
proof -
  have b: "0 \<le> uint w" "uint w < 2^64"
    using uint_lt2p[of w] by simp_all
  have s: "sint w = (uint w + 2^63) mod 2^64 - 2^63"
    by (simp add: sint_uint signed_take_bit_eq_take_bit_shift take_bit_eq_mod)
  show ?thesis
  proof (cases "uint w < 2^63")
    case True
    then have "(uint w + 2^63) mod 2^64 = uint w + 2^63"
      using b by (intro mod_pos_pos_trivial) simp_all
    with True s show ?thesis by simp
  next
    case False
    then have "(uint w + 2^63) mod 2^64 = uint w + 2^63 - 2^64"
      using b by (subst mod_pos_geq) (simp_all add: mod_pos_pos_trivial)
    with False s show ?thesis by simp
  qed
qed

text \<open>
  The number that a value of one of Go's integer types denotes: the signed reading of
  the signed types, the unsigned reading of the unsigned ones.
\<close>

fun int_value :: "value \<Rightarrow> int option" where
  "int_value (VInt v) = Some (sint v)"
| "int_value (VInt8 v) = Some (sint v)"
| "int_value (VInt16 v) = Some (sint v)"
| "int_value (VInt32 v) = Some (sint v)"
| "int_value (VInt64 v) = Some (sint v)"
| "int_value (VUint v) = Some (uint v)"
| "int_value (VUint8 v) = Some (uint v)"
| "int_value (VUint16 v) = Some (uint v)"
| "int_value (VUint32 v) = Some (uint v)"
| "int_value (VUint64 v) = Some (uint v)"
| "int_value v = None"

lemma normalizeValue_int_value:
  "int_value v = Some n \<Longrightarrow> normalizeValue v = VInt64 (word_of_int n)"
  by (cases v) (auto simp: scast_eq ucast_eq)

lemma normalizeValue_unchanged:
  "int_value v = None \<Longrightarrow> (\<forall>f. v \<noteq> VFloat32 f) \<Longrightarrow> (\<forall>b. v \<noteq> VBytes b) \<Longrightarrow> normalizeValue v = v"
  by (cases v) auto

lemma GetExportedCount_RecordValue:
  "RecordValue tb c v t = Inr t' \<Longrightarrow> v \<noteq> VNil \<Longrightarrow>
   GetExportedCount tb c t' = GetExportedCount tb c t + (if HasValue tb c v t = Inr True then 0 else 1)"
  by (auto simp: RecordValue_def HasValue_def GetExportedCount_def Let_def set_insert_def
      split: if_splits option.splits)

lemma is_nan_iff:
  "is_nan v \<longleftrightarrow> v = VFloat32 FNaN \<or> v = VFloat64 FNaN \<or> (\<exists>ty x. v = VOtherNaN ty x)"
  by (cases v rule: is_nan.cases) simp_all

lemma HasValue_nan:
  "is_nan (normalizeValue v) \<Longrightarrow> HasValue tb c v t = Inr False"
  by (cases v rule: is_nan.cases)
     (auto simp: HasValue_def set_member_def key_eq_def list_ex_iff split: option.splits)

text \<open>
  Claim C5, as stated, fails for a floating-point not-a-number: it is recorded (the set
  gains an entry), and no lookup finds it, since a not-a-number key equals no key. The
  same holds for a value of another comparable type that holds a not-a-number.
\<close>

theorem C5_nan_recorded_not_found:
  "RecordValue ''t'' ''c'' (VFloat64 FNaN) NewTracker
     = Inr \<lparr>exportedKeys = [''t.c'' \<mapsto> [VFloat64 FNaN]]\<rparr>
   \<and> HasValue ''t'' ''c'' (VFloat64 FNaN) \<lparr>exportedKeys = [''t.c'' \<mapsto> [VFloat64 FNaN]]\<rparr>
     = Inr False"
  by (simp add: RecordValue_def HasValue_def NewTracker_def makeKey_def set_insert_def
      set_member_def key_eq_def)

text \<open>
  Claim C5, amended: for every (table, column, value) recorded in a run of the tracker,
  where the value is not nil and neither is nor holds a not-a-number, \<open>HasValue\<close> is
  true at the end of the run for that value and for every value with the same
  normalisation. The normalisation of an integer of any of the ten integer types is the
  \<open>int64\<close> of the same number (\<open>int_value\<close>), so integers of the same number are
  interchangeable whatever their types; a \<open>float32\<close> normalises to the \<open>float64\<close> of
  the same number and a byte slice to the string of the same bytes, so these are
  interchangeable too; every other value is its own normalisation. \<open>RecordValue\<close> with
  nil returns the tracker as it was, so every count stays the same, whereas recording
  any other value raises the count of its column by one unless the value was found
  before; and \<open>HasValue\<close> with nil is true for every table and column of every tracker.
  A value that is or holds a not-a-number (\<open>is_nan\<close>: a \<open>float32\<close> or \<open>float64\<close>
  not-a-number, or such a value of another comparable type) is found in no tracker.
\<close>

theorem C5_recorded_values_are_found:
  "(record_all ops t0 = Inr t \<and> (tb, c, v) \<in> set ops \<and> v \<noteq> VNil
      \<and> \<not> is_nan (normalizeValue v) \<and> normalizeValue v' = normalizeValue v
     \<longrightarrow> HasValue tb c v' t = Inr True)
   \<and> (int_value v = Some n \<longrightarrow> normalizeValue v = VInt64 (word_of_int n))
   \<and> (record_all ops t0 = Inr t \<and> (tb, c, v) \<in> set ops
      \<and> int_value v = Some n \<and> int_value v' = Some n
     \<longrightarrow> HasValue tb c v' t = Inr True)
   \<and> normalizeValue (VFloat32 f) = VFloat64 f \<and> normalizeValue (VFloat64 f) = VFloat64 f
   \<and> (record_all ops t0 = Inr t \<and> f \<noteq> FNaN
      \<and> ((tb, c, VFloat32 f) \<in> set ops \<or> (tb, c, VFloat64 f) \<in> set ops)
     \<longrightarrow> HasValue tb c (VFloat32 f) t = Inr True \<and> HasValue tb c (VFloat64 f) t = Inr True)
   \<and> normalizeValue (VBytes b) = VString b \<and> normalizeValue (VString b) = VString b
   \<and> (record_all ops t0 = Inr t
      \<and> ((tb, c, VBytes b) \<in> set ops \<or> (tb, c, VString b) \<in> set ops)
     \<longrightarrow> HasValue tb c (VBytes b) t = Inr True \<and> HasValue tb c (VString b) t = Inr True)
   \<and> (int_value v = None \<and> (\<forall>x. v \<noteq> VFloat32 x) \<and> (\<forall>x. v \<noteq> VBytes x)
     \<longrightarrow> normalizeValue v = v)
   \<and> RecordValue tb c VNil t = Inr t
   \<and> (\<forall>t'. RecordValue tb c VNil t = Inr t'
         \<longrightarrow> GetExportedCount tb2 c2 t' = GetExportedCount tb2 c2 t)
   \<and> (\<forall>t'. RecordValue tb c v t = Inr t' \<and> v \<noteq> VNil
         \<longrightarrow> GetExportedCount tb c t' = GetExportedCount tb c t
               + (if HasValue tb c v t = Inr True then 0 else 1))
   \<and> HasValue tb c VNil t = Inr True
   \<and> (is_nan v \<longleftrightarrow> v = VFloat32 FNaN \<or> v = VFloat64 FNaN \<or> (\<exists>ty x. v = VOtherNaN ty x))
   \<and> (is_nan (normalizeValue v) \<longrightarrow> HasValue tb c v t = Inr False)"
proof -
  have a: "record_all ops t0 = Inr t \<and> (tb, c, v) \<in> set ops \<and> v \<noteq> VNil
      \<and> \<not> is_nan (normalizeValue v) \<and> normalizeValue v' = normalizeValue v
     \<longrightarrow> HasValue tb c v' t = Inr True"
    using record_all_has[of ops t0 t tb c v v'] by blast
  have b: "int_value v = Some n \<longrightarrow> normalizeValue v = VInt64 (word_of_int n)"
    by (simp add: normalizeValue_int_value)
  have c: "record_all ops t0 = Inr t \<and> (tb, c, v) \<in> set ops
      \<and> int_value v = Some n \<and> int_value v' = Some n
     \<longrightarrow> HasValue tb c v' t = Inr True"
  proof (intro impI, elim conjE)
    assume h: "record_all ops t0 = Inr t" "(tb, c, v) \<in> set ops"
      "int_value v = Some n" "int_value v' = Some n"
    from h(3,4) have n: "normalizeValue v = VInt64 (word_of_int n)"
        "normalizeValue v' = normalizeValue v"
      by (simp_all add: normalizeValue_int_value)
    from h(3) have "v \<noteq> VNil" by auto
    with record_all_has[OF h(1,2) _ _ n(2)] n(1) show "HasValue tb c v' t = Inr True"
      by simp
  qed
  have d: "record_all ops t0 = Inr t \<and> f \<noteq> FNaN
      \<and> ((tb, c, VFloat32 f) \<in> set ops \<or> (tb, c, VFloat64 f) \<in> set ops)
     \<longrightarrow> HasValue tb c (VFloat32 f) t = Inr True \<and> HasValue tb c (VFloat64 f) t = Inr True"
  proof (intro impI, elim conjE)
    assume h: "record_all ops t0 = Inr t" "f \<noteq> FNaN"
      "(tb, c, VFloat32 f) \<in> set ops \<or> (tb, c, VFloat64 f) \<in> set ops"
    from h(2) have nn: "\<not> is_nan (VFloat64 f)" by (cases f) auto
    from h(3) obtain w where w: "(tb, c, w) \<in> set ops" "w \<noteq> VNil" "normalizeValue w = VFloat64 f"
      by auto
    from record_all_has[OF h(1) w(1,2), of "VFloat32 f"] record_all_has[OF h(1) w(1,2), of "VFloat64 f"]
      w(3) nn
    show "HasValue tb c (VFloat32 f) t = Inr True \<and> HasValue tb c (VFloat64 f) t = Inr True"
      by simp
  qed
  have e: "record_all ops t0 = Inr t
      \<and> ((tb, c, VBytes b) \<in> set ops \<or> (tb, c, VString b) \<in> set ops)
     \<longrightarrow> HasValue tb c (VBytes b) t = Inr True \<and> HasValue tb c (VString b) t = Inr True"
  proof (intro impI, elim conjE)
    assume h: "record_all ops t0 = Inr t"
      "(tb, c, VBytes b) \<in> set ops \<or> (tb, c, VString b) \<in> set ops"
    from h(2) obtain w where w: "(tb, c, w) \<in> set ops" "w \<noteq> VNil" "normalizeValue w = VString b"
      by auto
    from record_all_has[OF h(1) w(1,2), of "VBytes b"] record_all_has[OF h(1) w(1,2), of "VString b"]
      w(3)
    show "HasValue tb c (VBytes b) t = Inr True \<and> HasValue tb c (VString b) t = Inr True"
      by simp
  qed
  have g: "int_value v = None \<and> (\<forall>x. v \<noteq> VFloat32 x) \<and> (\<forall>x. v \<noteq> VBytes x)
     \<longrightarrow> normalizeValue v = v"
    using normalizeValue_unchanged[of v] by blast
  have n1: "RecordValue tb c VNil t = Inr t"
    by (simp add: RecordValue_def)
  have n2: "HasValue tb c VNil t = Inr True"
    by (simp add: HasValue_def)
  have k: "\<forall>t'. RecordValue tb c v t = Inr t' \<and> v \<noteq> VNil
         \<longrightarrow> GetExportedCount tb c t' = GetExportedCount tb c t
               + (if HasValue tb c v t = Inr True then 0 else 1)"
    using GetExportedCount_RecordValue[of tb c v t] by blast
  have n3: "is_nan v \<longleftrightarrow> v = VFloat32 FNaN \<or> v = VFloat64 FNaN \<or> (\<exists>ty x. v = VOtherNaN ty x)"
    by (rule is_nan_iff)
  have n4: "is_nan (normalizeValue v) \<longrightarrow> HasValue tb c v t = Inr False"
    by (simp add: HasValue_nan)
  from a b c d e g n1 n2 k n3 n4 show ?thesis
    by simp
qed


theorem C5_recorded_values_are_found_witness:
  "record_all [(''users'', ''id'', VInt 7), (''users'', ''id'', VInt64 7), (''users'', ''id'', VUint8 9),
               (''users'', ''data'', VString ''test''), (''users'', ''score'', VFloat32 (FNum 1)),
               (''users'', ''id'', VNil)] NewTracker
     = Inr \<lparr>exportedKeys = [''users.id'' \<mapsto> [VInt64 7, VInt64 9],
                              ''users.data'' \<mapsto> [VString ''test''],
                              ''users.score'' \<mapsto> [VFloat64 (FNum 1)]]\<rparr>
   \<and> map (\<lambda>v. HasValue ''users'' ''id'' v
                \<lparr>exportedKeys = [''users.id'' \<mapsto> [VInt64 7, VInt64 9],
                                 ''users.data'' \<mapsto> [VString ''test''],
                                 ''users.score'' \<mapsto> [VFloat64 (FNum 1)]]\<rparr>)
         [VInt 7, VInt8 7, VInt16 7, VInt32 7, VInt64 7, VUint 7, VUint8 7, VUint16 7, VUint32 7,
          VUint64 7, VInt 9, VInt 8, VString ''7'', VNil]
       = [Inr True, Inr True, Inr True, Inr True, Inr True, Inr True, Inr True, Inr True, Inr True,
          Inr True, Inr True, Inr False, Inr False, Inr True]
   \<and> HasValue ''users'' ''data'' (VBytes ''test'')
         \<lparr>exportedKeys = [''users.id'' \<mapsto> [VInt64 7, VInt64 9],
                          ''users.data'' \<mapsto> [VString ''test''],
                          ''users.score'' \<mapsto> [VFloat64 (FNum 1)]]\<rparr> = Inr True
   \<and> HasValue ''users'' ''score'' (VFloat64 (FNum 1))
         \<lparr>exportedKeys = [''users.id'' \<mapsto> [VInt64 7, VInt64 9],
                          ''users.data'' \<mapsto> [VString ''test''],
                          ''users.score'' \<mapsto> [VFloat64 (FNum 1)]]\<rparr> = Inr True
   \<and> HasValue ''orders'' ''id'' (VInt 7)
         \<lparr>exportedKeys = [''users.id'' \<mapsto> [VInt64 7, VInt64 9],
                          ''users.data'' \<mapsto> [VString ''test''],
                          ''users.score'' \<mapsto> [VFloat64 (FNum 1)]]\<rparr> = Inr False
   \<and> GetExportedCount ''users'' ''id''
         \<lparr>exportedKeys = [''users.id'' \<mapsto> [VInt64 7, VInt64 9],
                          ''users.data'' \<mapsto> [VString ''test''],
                          ''users.score'' \<mapsto> [VFloat64 (FNum 1)]]\<rparr> = 2
   \<and> normalizeValue (VInt8 (- 1)) = VInt64 (- 1)
   \<and> normalizeValue (VUint8 255) = VInt64 255
   \<and> normalizeValue (VUint64 (- 1)) = VInt64 (- 1)
   \<and> RecordValue ''users'' ''id'' VUncomparable NewTracker = Inl HashOfUnhashableType
   \<and> HasValue ''users'' ''id'' (VOtherNaN ''complex128'' ''(NaN+0i)'')
         \<lparr>exportedKeys = [''users.id'' \<mapsto> [VOtherNaN ''complex128'' ''(NaN+0i)'']]\<rparr> = Inr False
   \<and> HasValue ''users'' ''id'' (VOther ''time.Time'' ''2024-01-01'')
         \<lparr>exportedKeys = [''users.id'' \<mapsto> [VOther ''time.Time'' ''2024-01-01'']]\<rparr> = Inr True"
proof -
  let ?ops = "[(''users'', ''id'', VInt 7), (''users'', ''id'', VInt64 7), (''users'', ''id'', VUint8 9),
               (''users'', ''data'', VString ''test''), (''users'', ''score'', VFloat32 (FNum 1)),
               (''users'', ''id'', VNil)]"
  let ?t = "\<lparr>exportedKeys = [''users.id'' \<mapsto> [VInt64 7, VInt64 9],
                              ''users.data'' \<mapsto> [VString ''test''],
                              ''users.score'' \<mapsto> [VFloat64 (FNum 1)]]\<rparr>"
  have r: "record_all ?ops NewTracker = Inr ?t"
    by (simp add: RecordValue_def NewTracker_def makeKey_def set_insert_def set_member_def
        key_eq_def)
  have m: "(''users'', ''id'', VInt 7) \<in> set ?ops" "(''users'', ''id'', VUint8 9) \<in> set ?ops"
      "(''users'', ''data'', VString ''test'') \<in> set ?ops"
      "(''users'', ''score'', VFloat32 (FNum 1)) \<in> set ?ops"
    by simp_all
  have i: "int_value (VInt 7) = Some 7" "int_value (VInt8 7) = Some 7" "int_value (VInt16 7) = Some 7"
      "int_value (VInt32 7) = Some 7" "int_value (VInt64 7) = Some 7" "int_value (VUint 7) = Some 7"
      "int_value (VUint8 7) = Some 7" "int_value (VUint16 7) = Some 7"
      "int_value (VUint32 7) = Some 7" "int_value (VUint64 7) = Some 7"
      "int_value (VUint8 9) = Some 9" "int_value (VInt 9) = Some 9"
    by simp_all
  note ints = C5_recorded_values_are_found[THEN conjunct2, THEN conjunct2, THEN conjunct1, rule_format]
  note floats = C5_recorded_values_are_found[THEN conjunct2, THEN conjunct2, THEN conjunct2, THEN conjunct2,
      THEN conjunct2, THEN conjunct1, rule_format]
  note bytes = C5_recorded_values_are_found[THEN conjunct2, THEN conjunct2, THEN conjunct2, THEN conjunct2,
      THEN conjunct2, THEN conjunct2, THEN conjunct2, THEN conjunct2, THEN conjunct1, rule_format]
  have y: "HasValue ''users'' ''id'' (VInt 7) ?t = Inr True"
      "HasValue ''users'' ''id'' (VInt8 7) ?t = Inr True"
      "HasValue ''users'' ''id'' (VInt16 7) ?t = Inr True"
      "HasValue ''users'' ''id'' (VInt32 7) ?t = Inr True"
      "HasValue ''users'' ''id'' (VInt64 7) ?t = Inr True"
      "HasValue ''users'' ''id'' (VUint 7) ?t = Inr True"
      "HasValue ''users'' ''id'' (VUint8 7) ?t = Inr True"
      "HasValue ''users'' ''id'' (VUint16 7) ?t = Inr True"
      "HasValue ''users'' ''id'' (VUint32 7) ?t = Inr True"
      "HasValue ''users'' ''id'' (VUint64 7) ?t = Inr True"
    by (rule ints[of ?ops NewTracker ?t _ _ "VInt 7" 7], intro conjI r m(1) i)+
  have y9: "HasValue ''users'' ''id'' (VInt 9) ?t = Inr True"
    by (rule ints[of ?ops NewTracker ?t _ _ "VUint8 9" 9], intro conjI r m(2) i)
  have yd: "HasValue ''users'' ''data'' (VBytes ''test'') ?t = Inr True"
    using bytes[of ?ops NewTracker ?t "''users''" "''data''" "''test''"] r m(3) by blast
  have yf: "HasValue ''users'' ''score'' (VFloat64 (FNum 1)) ?t = Inr True"
    using floats[of ?ops NewTracker ?t "FNum 1" "''users''" "''score''"] r m(4) by blast
  have yn: "HasValue ''users'' ''id'' VNil ?t = Inr True"
    by (simp add: HasValue_def)
  have no: "HasValue ''users'' ''id'' (VInt 8) ?t = Inr False"
      "HasValue ''users'' ''id'' (VString ''7'') ?t = Inr False"
      "HasValue ''orders'' ''id'' (VInt 7) ?t = Inr False"
    by (simp_all add: HasValue_def makeKey_def set_member_def key_eq_def)
  have cnt: "GetExportedCount ''users'' ''id'' ?t = 2"
    by (simp add: GetExportedCount_def makeKey_def)
  have nv: "normalizeValue (VInt8 (- 1)) = VInt64 (- 1)" "normalizeValue (VUint8 255) = VInt64 255"
      "normalizeValue (VUint64 (- 1)) = VInt64 (- 1)"
    by simp_all
  have pn: "RecordValue ''users'' ''id'' VUncomparable NewTracker = Inl HashOfUnhashableType"
    by (simp add: RecordValue_def)
  have on: "HasValue ''users'' ''id'' (VOtherNaN ''complex128'' ''(NaN+0i)'')
         \<lparr>exportedKeys = [''users.id'' \<mapsto> [VOtherNaN ''complex128'' ''(NaN+0i)'']]\<rparr> = Inr False"
      "HasValue ''users'' ''id'' (VOther ''time.Time'' ''2024-01-01'')
         \<lparr>exportedKeys = [''users.id'' \<mapsto> [VOther ''time.Time'' ''2024-01-01'']]\<rparr> = Inr True"
    by (simp_all add: HasValue_def makeKey_def set_member_def key_eq_def)
  from r y y9 yd yf yn no cnt nv pn on show ?thesis
    by simp
qed

text \<open>
  Claim C10, as stated, fails for a nil input: after a \<open>uint64\<close> has been recorded,
  \<open>HasValue\<close> is true for nil, whose normalisation is not the recorded number.
\<close>

theorem C10_nil_input_found:
  "RecordValue ''t'' ''c'' (VUint64 5) NewTracker
     = Inr \<lparr>exportedKeys = [''t.c'' \<mapsto> [VInt64 5]]\<rparr>
   \<and> HasValue ''t'' ''c'' VNil \<lparr>exportedKeys = [''t.c'' \<mapsto> [VInt64 5]]\<rparr> = Inr True
   \<and> normalizeValue VNil \<noteq> VInt64 5"
  by (simp add: RecordValue_def HasValue_def NewTracker_def makeKey_def set_insert_def)

text \<open>
  Claim C10, amended: \<open>normalizeValue\<close> maps a \<open>uint64\<close> to the \<open>int64\<close> with the same
  64 bits, whose signed reading is the number itself below \<open>2^63\<close> and the number minus
  \<open>2^64\<close> from there on; this mapping is a bijection, so two distinct \<open>uint64\<close> values
  have distinct normalisations; and once a \<open>uint64\<close> value \<open>w\<close> is recorded,
  \<open>HasValue\<close> for the same table and column and a non-nil input of a comparable type
  is true exactly when the input was found before or its normalisation is \<open>int64(w)\<close>;
  for a nil input \<open>HasValue\<close> is true in every tracker.
\<close>

theorem C10_uint64_normalisation:
  "normalizeValue (VUint64 w) = VInt64 (ucast w)
   \<and> sint (ucast w :: 64 word) = (if uint w < 2^63 then uint w else uint w - 2^64)
   \<and> bij (\<lambda>u :: 64 word. ucast u :: 64 word)
   \<and> (normalizeValue (VUint64 w) = normalizeValue (VUint64 w') \<longrightarrow> w = w')
   \<and> (RecordValue tb c (VUint64 w) t = Inr t' \<and> x \<noteq> VNil \<and> hashable (normalizeValue x)
        \<longrightarrow> HasValue tb c x t' =
              Inr (HasValue tb c x t = Inr True \<or> normalizeValue x = VInt64 (ucast w)))
   \<and> HasValue tb2 c2 VNil t2 = Inr True"
proof -
  have "HasValue tb2 c2 VNil t2 = Inr True"
    by (simp add: HasValue_def)
  moreover have "bij (\<lambda>u :: 64 word. ucast u :: 64 word)"
    by (simp add: bij_def inj_def surj_def)
  moreover have "RecordValue tb c (VUint64 w) t = Inr t' \<and> x \<noteq> VNil \<and> hashable (normalizeValue x)
        \<longrightarrow> HasValue tb c x t' =
              Inr (HasValue tb c x t = Inr True \<or> normalizeValue x = VInt64 (ucast w))"
    using HasValue_RecordValue[of tb c "VUint64 w" t t' x tb c] by auto
  ultimately show ?thesis
    using sint_u64[of w] by simp
qed

theorem C10_uint64_normalisation_witness:
  "normalizeValue (VUint64 (2^63)) = VInt64 (2^63)
   \<and> sint (2^63 :: 64 word) = - (2^63)
   \<and> RecordValue ''t'' ''c'' (VUint64 (2^63)) NewTracker
       = Inr \<lparr>exportedKeys = [''t.c'' \<mapsto> [VInt64 (2^63)]]\<rparr>
   \<and> HasValue ''t'' ''c'' (VInt64 (2^63)) \<lparr>exportedKeys = [''t.c'' \<mapsto> [VInt64 (2^63)]]\<rparr>
       = Inr True
   \<and> HasValue ''t'' ''c'' (VInt64 7) \<lparr>exportedKeys = [''t.c'' \<mapsto> [VInt64 (2^63)]]\<rparr>
       = Inr False"
proof -
  let ?t = "\<lparr>exportedKeys = [''t.c'' \<mapsto> [VInt64 (2^63)]]\<rparr>"
  have r: "RecordValue ''t'' ''c'' (VUint64 (2^63)) NewTracker = Inr ?t"
    by (simp add: RecordValue_def NewTracker_def makeKey_def set_insert_def)
  have n: "HasValue ''t'' ''c'' x NewTracker = Inr True \<longleftrightarrow> x = VNil" for x
    by (simp add: HasValue_def NewTracker_def)
  note th = C10_uint64_normalisation[of "2^63" _ "''t''" "''c''" NewTracker ?t]
  have "HasValue ''t'' ''c'' (VInt64 (2^63)) ?t = Inr True"
    using th[of _ "VInt64 (2^63)"] r n by simp
  moreover have "HasValue ''t'' ''c'' (VInt64 7) ?t = Inr False"
    using th[of _ "VInt64 7"] r n by simp
  moreover have "sint (2^63 :: 64 word) = - (2^63)"
    using th[of 0 VNil] by simp
  ultimately show ?thesis using r by simp
qed

section \<open>Schema analyser: dependency ordering (internal/schema)\<close>

text \<open>
  \<open>TableInfo\<close>, \<open>ColumnInfo\<close> and \<open>ForeignKey\<close> are the structs of the source
  (\<open>sql.NullString\<close> is an optional string). A Go map that is only read and written by
  key is a function returning the zero value for an absent key (\<open>dependents\<close>,
  \<open>tableMap\<close>) or a partial map where presence is tested (\<open>dependencies\<close>);
  \<open>inDegree\<close> is a finite map read through \<open>indeg\<close>, which returns 0 for an absent
  key as \<open>inDegree[k]\<close> does. Go leaves the order in which \<open>range\<close> visits the keys of
  a map unspecified, so \<open>topologicalSort\<close> takes that order as its first argument
  \<open>ks\<close>: the keys of \<open>dependencies\<close>, each once, in the order the loop visits them.
\<close>

record ColumnInfo =
  ColumnName :: string
  DataType :: string
  IsNullable :: bool
  Default :: "string option"

record TableInfo =
  Name :: string
  CreateStmt :: string
  TableColumns :: "ColumnInfo list"
  RowCount :: "64 word"

record ForeignKey =
  Table :: string
  Column :: string
  ReferencedTable :: string
  ReferencedColumn :: string

definition zeroTableInfo :: TableInfo where
  "zeroTableInfo = \<lparr>Name = [], CreateStmt = [], TableColumns = [], RowCount = 0\<rparr>"

definition indeg :: "(string, int) fmap \<Rightarrow> string \<Rightarrow> int" where
  "indeg m k = (case fmlookup m k of None \<Rightarrow> 0 | Some n \<Rightarrow> n)"

fun reduce_dependents ::
  "string list \<Rightarrow> (string, int) fmap \<times> string list \<Rightarrow> (string, int) fmap \<times> string list" where
  "reduce_dependents [] (inDegree, queue) = (inDegree, queue)"
| "reduce_dependents (d # rest) (inDegree, queue) =
     (let inDegree' = fmupd d (indeg inDegree d - 1) inDegree
      in reduce_dependents rest
           (inDegree', if indeg inDegree' d = 0 then queue @ [d] else queue))"

lemma indeg_fmupd [simp]: "indeg (fmupd k v m) k' = (if k' = k then v else indeg m k')"
  by (auto simp: indeg_def)

lemma indeg_fmempty [simp]: "indeg fmempty k = 0"
  by (simp add: indeg_def)

lemma finite_positive_indeg: "finite {k. 0 < indeg m k}"
proof (rule finite_subset)
  show "{k. 0 < indeg m k} \<subseteq> fmdom' m"
    by (auto simp: indeg_def fmlookup_dom'_iff split: option.splits)
qed simp

lemma reduce_dependents_measure:
  "reduce_dependents ds (m, q) = (m', q') \<Longrightarrow>
   length q' + card {k. 0 < indeg m' k} = length q + card {k. 0 < indeg m k}"
proof (induction ds arbitrary: m q)
  case Nil
  then show ?case by simp
next
  case (Cons d ds)
  let ?m1 = "fmupd d (indeg m d - 1) m"
  let ?q1 = "if indeg ?m1 d = 0 then q @ [d] else q"
  from Cons.prems have "reduce_dependents ds (?m1, ?q1) = (m', q')"
    by (simp add: Let_def)
  from Cons.IH[OF this]
  have ih: "length q' + card {k. 0 < indeg m' k} = length ?q1 + card {k. 0 < indeg ?m1 k}" .
  show ?case
  proof (cases "indeg m d = 1")
    case True
    then have "{k. 0 < indeg ?m1 k} = {k. 0 < indeg m k} - {d}" by auto
    moreover have "d \<in> {k. 0 < indeg m k}" using True by simp
    ultimately have "card {k. 0 < indeg ?m1 k} + 1 = card {k. 0 < indeg m k}"
      using finite_positive_indeg[of m]
      by (metis One_nat_def Suc_eq_plus1 card_Suc_Diff1)
    with ih True show ?thesis by simp
  next
    case False
    then have "{k. 0 < indeg ?m1 k} = {k. 0 < indeg m k}" by auto
    with ih False show ?thesis by simp
  qed
qed

function process_queue ::
  "(string \<Rightarrow> TableInfo) \<Rightarrow> (string \<Rightarrow> string list) \<Rightarrow> (string, int) fmap \<Rightarrow> string list
     \<Rightarrow> TableInfo list \<Rightarrow> TableInfo list" where
  "process_queue tableMap dependents inDegree [] sortedL = sortedL"
| "process_queue tableMap dependents inDegree (current # queue) sortedL =
     (case reduce_dependents (dependents current) (inDegree, queue) of
        (inDegree', queue') \<Rightarrow>
          process_queue tableMap dependents inDegree' queue' (sortedL @ [tableMap current]))"
  by pat_completeness auto
termination
  by (relation "measure (\<lambda>(tableMap, dependents, inDegree, queue, sortedL).
                    length queue + card {k. 0 < indeg inDegree k})")
     (auto dest!: reduce_dependents_measure[OF sym])

definition add_dependency ::
  "string \<Rightarrow> string \<Rightarrow> (string \<Rightarrow> string list) \<times> (string, int) fmap
     \<Rightarrow> (string \<Rightarrow> string list) \<times> (string, int) fmap" where
  "add_dependency table dep = (\<lambda>(dependents, inDegree).
     (dependents(dep := dependents dep @ [table]),
      fmupd table (indeg inDegree table + 1) inDegree))"

definition topologicalSort ::
  "string list \<Rightarrow> TableInfo list \<Rightarrow> (string \<rightharpoonup> string list) \<Rightarrow> string + TableInfo list" where
  "topologicalSort ks tables dependencies =
     (let inDegree0 = fold (\<lambda>t m. fmupd (Name t) 0 m) tables fmempty;
          (dependents, inDegree) =
             fold (\<lambda>table acc.
                     case dependencies table of
                       None \<Rightarrow> acc
                     | Some deps \<Rightarrow> fold (add_dependency table) deps acc)
                  ks (\<lambda>_. [], inDegree0);
          queue = map Name (filter (\<lambda>t. indeg inDegree (Name t) = 0) tables);
          tableMap = fold (\<lambda>t m. m(Name t := t)) tables (\<lambda>_. zeroTableInfo);
          sortedL = process_queue tableMap dependents inDegree queue []
      in if length sortedL \<noteq> length tables
         then Inr (sortedL @ filter (\<lambda>t. Name t \<notin> set (map Name sortedL)) tables)
         else Inr sortedL)"

definition build_dependencies ::
  "TableInfo list \<Rightarrow> ForeignKey list \<Rightarrow> (string \<rightharpoonup> string list)" where
  "build_dependencies tables fks =
     (let tableSet = set (map Name tables);
          dependencies0 =
             fold (\<lambda>t d. if d (Name t) = None then d(Name t \<mapsto> []) else d) tables Map.empty
      in fold (\<lambda>fk d.
                 if Table fk \<in> tableSet \<and> ReferencedTable fk \<in> tableSet
                    \<and> Table fk \<noteq> ReferencedTable fk
                 then d(Table fk \<mapsto> (case d (Table fk) of None \<Rightarrow> [] | Some l \<Rightarrow> l)
                                          @ [ReferencedTable fk])
                 else d)
              fks dependencies0)"

definition SortTablesByDependency ::
  "string list \<Rightarrow> string + ForeignKey list \<Rightarrow> TableInfo list \<Rightarrow> string + TableInfo list" where
  "SortTablesByDependency ks GetForeignKeys tables =
     (case GetForeignKeys of
        Inl err \<Rightarrow> Inl (''failed to get foreign keys: '' @ err)
      | Inr fks \<Rightarrow> topologicalSort ks tables (build_dependencies tables fks))"


definition deps_of :: "(string \<rightharpoonup> string list) \<Rightarrow> string \<Rightarrow> string list" where
  "deps_of dependencies n = (case dependencies n of None \<Rightarrow> [] | Some l \<Rightarrow> l)"

lemma reduce_dependents_closed:
  "(\<forall>t \<in> set ds. int (count_list ds t) \<le> indeg m t) \<Longrightarrow>
   reduce_dependents ds (m, q) = (m', q') \<Longrightarrow>
   (\<forall>t. indeg m' t = indeg m t - int (count_list ds t)) \<and>
   q' = q @ filter (\<lambda>t. indeg m t = int (count_list ds t)) (remdups ds)"
proof (induction ds arbitrary: m q)
  case Nil
  then show ?case by simp
next
  case (Cons d ds)
  let ?m1 = "fmupd d (indeg m d - 1) m"
  let ?q1 = "if indeg ?m1 d = 0 then q @ [d] else q"
  from Cons.prems(2) have r: "reduce_dependents ds (?m1, ?q1) = (m', q')"
    by (simp add: Let_def)
  have pre: "\<forall>t \<in> set ds. int (count_list ds t) \<le> indeg ?m1 t"
    using Cons.prems(1) by auto
  from Cons.IH[OF pre r]
  have ih1: "\<forall>t. indeg m' t = indeg ?m1 t - int (count_list ds t)"
    and ih2: "q' = ?q1 @ filter (\<lambda>t. indeg ?m1 t = int (count_list ds t)) (remdups ds)"
    by simp_all
  have a: "\<forall>t. indeg m' t = indeg m t - int (count_list (d # ds) t)"
    using ih1 by auto
  have f: "filter (\<lambda>t. indeg ?m1 t = int (count_list ds t)) (remdups ds)
         = filter (\<lambda>t. indeg m t = int (count_list (d # ds) t)) (remdups ds)"
    by (intro filter_cong refl) auto
  have b: "q' = q @ filter (\<lambda>t. indeg m t = int (count_list (d # ds) t)) (remdups (d # ds))"
  proof (cases "d \<in> set ds")
    case True
    then have "0 < count_list ds d" using count_list_0_iff[of ds d] by simp
    moreover have "int (count_list (d # ds) d) \<le> indeg m d"
      using Cons.prems(1) by simp
    ultimately have "indeg m d \<noteq> 1" by simp
    with True ih2 f show ?thesis by simp
  next
    case False
    then have "count_list ds d = 0" by (simp add: count_list_0_iff)
    with False ih2 f show ?thesis by auto
  qed
  from a b show ?case by blast
qed


definition topo :: "(string \<Rightarrow> string list) \<Rightarrow> string list \<Rightarrow> bool" where
  "topo deps l = (\<forall>i < length l. set (deps (l ! i)) \<subseteq> set (take i l))"

lemma topo_snoc: "topo deps l \<Longrightarrow> set (deps c) \<subseteq> set l \<Longrightarrow> topo deps (l @ [c])"
  unfolding topo_def
proof (intro allI impI)
  fix i
  assume a: "\<forall>i<length l. set (deps (l ! i)) \<subseteq> set (take i l)"
    and c: "set (deps c) \<subseteq> set l" and i: "i < length (l @ [c])"
  show "set (deps ((l @ [c]) ! i)) \<subseteq> set (take i (l @ [c]))"
  proof (cases "i < length l")
    case True
    with a show ?thesis by (simp add: nth_append)
  next
    case False
    with i have "i = length l" by simp
    with c show ?thesis by simp
  qed
qed

lemma count_le_undone:
  "c \<notin> S \<Longrightarrow> count_list l c \<le> length (filter (\<lambda>d. d \<notin> S) l)"
  by (induction l) auto

lemma undone_insert:
  "c \<notin> S \<Longrightarrow> int (length (filter (\<lambda>d. d \<notin> insert c S) l))
     = int (length (filter (\<lambda>d. d \<notin> S) l)) - int (count_list l c)"
  by (induction l) auto

lemma process_queue_topo:
  "(\<forall>a b. count_list (dependents b) a = count_list (deps a) b) \<Longrightarrow>
     (\<forall>b. set (dependents b) \<subseteq> N) \<Longrightarrow>
     distinct (seen @ q) \<Longrightarrow>
     (\<forall>t. indeg m t = int (length (filter (\<lambda>d. d \<notin> set seen) (deps t)))) \<Longrightarrow>
     (\<forall>t \<in> N. indeg m t = 0 \<longrightarrow> t \<in> set (seen @ q)) \<Longrightarrow>
     (\<forall>t \<in> set (seen @ q). indeg m t = 0) \<Longrightarrow>
     set (seen @ q) \<subseteq> N \<Longrightarrow> topo deps seen \<Longrightarrow>
     \<exists>ns. process_queue tm dependents m q s = s @ map tm ns \<and> distinct (seen @ ns)
        \<and> set (seen @ ns) \<subseteq> N \<and> topo deps (seen @ ns)
        \<and> (\<forall>t \<in> N. t \<notin> set (seen @ ns) \<longrightarrow> (\<exists>d \<in> set (deps t). d \<notin> set (seen @ ns)))"
proof (induction tm dependents m q s arbitrary: seen rule: process_queue.induct)
  case (1 tm dependents m s)
  have "\<exists>d \<in> set (deps t). d \<notin> set seen" if t: "t \<in> N" "t \<notin> set seen" for t
  proof -
    from "1.prems"(5) t have "indeg m t \<noteq> 0" by auto
    with "1.prems"(4) have "filter (\<lambda>d. d \<notin> set seen) (deps t) \<noteq> []" by auto
    then show ?thesis by (auto simp: filter_empty_conv)
  qed
  with "1.prems" show ?case by (intro exI[of _ "[]"]) auto
next
  case (2 tm dependents m current queue s)
  let ?ds = "dependents current"
  let ?seen = "seen @ [current]"
  obtain m' q' where r: "reduce_dependents ?ds (m, queue) = (m', q')"
    by (cases "reduce_dependents ?ds (m, queue)")
  note link = "2.prems"(1) and rng = "2.prems"(2) and dist = "2.prems"(3) and deg = "2.prems"(4)
    and ready = "2.prems"(5) and zero = "2.prems"(6) and sub = "2.prems"(7) and tp = "2.prems"(8)
  have cur: "current \<notin> set seen" "current \<notin> set queue"
    using dist by auto
  have cnt: "count_list ?ds t = count_list (deps t) current" for t
    using link by simp
  have pre: "\<forall>t \<in> set ?ds. int (count_list ?ds t) \<le> indeg m t"
    using count_le_undone[OF cur(1)] deg cnt by simp
  let ?new = "filter (\<lambda>t. indeg m t = int (count_list ?ds t)) (remdups ?ds)"
  from reduce_dependents_closed[OF pre r]
  have m': "\<And>t. indeg m' t = indeg m t - int (count_list ?ds t)" and q': "q' = queue @ ?new"
    by simp_all
  have new_pos: "0 < indeg m t" if "t \<in> set ?new" for t
  proof -
    from that have "t \<in> set ?ds" "indeg m t = int (count_list ?ds t)" by auto
    then show ?thesis using count_list_0_iff[of ?ds t] by simp
  qed
  have new_fresh: "t \<notin> set (seen @ current # queue)" if "t \<in> set ?new" for t
    using new_pos[OF that] zero by force
  have old_cnt: "count_list ?ds t = 0" if "indeg m t = 0" for t
  proof -
    from that deg have "filter (\<lambda>d. d \<notin> set seen) (deps t) = []" by simp
    then have "set (deps t) \<subseteq> set seen" by (auto simp: filter_empty_conv)
    with cur(1) have "current \<notin> set (deps t)" by auto
    then show ?thesis using cnt count_list_0_iff[of "deps t" current] by simp
  qed
  have d1: "distinct (?seen @ q')"
    using dist new_fresh by (auto simp: q')
  have d2: "\<forall>t. indeg m' t = int (length (filter (\<lambda>d. d \<notin> set ?seen) (deps t)))"
    using undone_insert[OF cur(1)] deg by (simp add: m' cnt)
  have d3: "\<forall>t \<in> N. indeg m' t = 0 \<longrightarrow> t \<in> set (?seen @ q')"
  proof (intro ballI impI)
    fix t assume t: "t \<in> N" "indeg m' t = 0"
    show "t \<in> set (?seen @ q')"
    proof (cases "count_list ?ds t = 0")
      case True
      with t m'[of t] have "indeg m t = 0" by simp
      with ready t(1) show ?thesis by (auto simp: q')
    next
      case False
      then have "t \<in> set ?ds" using count_list_0_iff[of ?ds t] by simp
      moreover from t m'[of t] have "indeg m t = int (count_list ?ds t)" by simp
      ultimately show ?thesis by (simp add: q')
    qed
  qed
  have d4: "\<forall>t \<in> set (?seen @ q'). indeg m' t = 0"
  proof
    fix t assume "t \<in> set (?seen @ q')"
    then consider "t \<in> set (seen @ current # queue)" | "t \<in> set ?new"
      by (auto simp: q')
    then show "indeg m' t = 0"
    proof cases
      case 1
      with zero have "indeg m t = 0" by blast
      with old_cnt[OF this] show ?thesis by (simp add: m')
    next
      case 2
      then show ?thesis by (simp add: m')
    qed
  qed
  have d5: "set (?seen @ q') \<subseteq> N"
    using sub rng by (auto simp: q')
  have "indeg m current = 0" using zero by simp
  with deg have "filter (\<lambda>d. d \<notin> set seen) (deps current) = []" by simp
  then have "set (deps current) \<subseteq> set seen" by (auto simp: filter_empty_conv)
  from topo_snoc[OF tp this] have d6: "topo deps ?seen" .
  from "2.IH"[OF r[symmetric] link rng d1 d2 d3 d4 d5 d6]
  obtain ns where ns: "process_queue tm dependents m' q' (s @ [tm current]) = (s @ [tm current]) @ map tm ns"
      "distinct (?seen @ ns)" "set (?seen @ ns) \<subseteq> N" "topo deps (?seen @ ns)"
      "\<forall>t \<in> N. t \<notin> set (?seen @ ns) \<longrightarrow> (\<exists>d \<in> set (deps t). d \<notin> set (?seen @ ns))"
    by blast
  show ?case
  proof (intro exI[of _ "current # ns"] conjI)
    show "process_queue tm dependents m (current # queue) s = s @ map tm (current # ns)"
      using ns(1) r by simp
  qed (use ns in simp_all)
qed


lemma add_dependency_fold:
  "fold (add_dependency table) deps (dp0, dg0) = (dp, dg) \<Longrightarrow>
    (\<forall>t. indeg dg t = indeg dg0 t + (if t = table then int (length deps) else 0)) \<and>
    (\<forall>a b. count_list (dp b) a
              = count_list (dp0 b) a + (if a = table then count_list deps b else 0))"
proof (induction deps arbitrary: dp0 dg0)
  case Nil
  then show ?case by simp
next
  case (Cons d deps)
  from Cons.prems
  have "fold (add_dependency table) deps
          (dp0(d := dp0 d @ [table]), fmupd table (indeg dg0 table + 1) dg0) = (dp, dg)"
    by (simp add: add_dependency_def[of table d])
  from Cons.IH[OF this] show ?case by auto
qed

lemma dependents_fold:
  "distinct ks \<Longrightarrow>
   fold (\<lambda>table acc. case dependencies table of None \<Rightarrow> acc
                       | Some deps \<Rightarrow> fold (add_dependency table) deps acc) ks (dp0, dg0)
     = (dp, dg) \<Longrightarrow>
   (\<forall>t. indeg dg t = indeg dg0 t
            + (if t \<in> set ks then int (length (deps_of dependencies t)) else 0)) \<and>
   (\<forall>a b. count_list (dp b) a = count_list (dp0 b) a
            + (if a \<in> set ks then count_list (deps_of dependencies a) b else 0))"
proof (induction ks arbitrary: dp0 dg0)
  case Nil
  then show ?case by simp
next
  case (Cons k ks)
  let ?step = "\<lambda>table acc. case dependencies table of None \<Rightarrow> acc
                       | Some deps \<Rightarrow> fold (add_dependency table) deps acc"
  obtain dp1 dg1 where s1: "?step k (dp0, dg0) = (dp1, dg1)"
    by (cases "?step k (dp0, dg0)")
  have one: "(\<forall>t. indeg dg1 t = indeg dg0 t
                  + (if t = k then int (length (deps_of dependencies k)) else 0)) \<and>
    (\<forall>a b. count_list (dp1 b) a = count_list (dp0 b) a
                  + (if a = k then count_list (deps_of dependencies k) b else 0))"
  proof (cases "dependencies k")
    case None
    with s1 show ?thesis by (simp add: deps_of_def)
  next
    case (Some deps)
    with s1 have "fold (add_dependency k) deps (dp0, dg0) = (dp1, dg1)" by simp
    from add_dependency_fold[OF this] Some show ?thesis by (simp add: deps_of_def)
  qed
  from Cons.prems(2) s1 have "fold ?step ks (dp1, dg1) = (dp, dg)" by simp
  from Cons.IH[OF _ this] Cons.prems(1)
  have rest: "(\<forall>t. indeg dg t = indeg dg1 t
            + (if t \<in> set ks then int (length (deps_of dependencies t)) else 0)) \<and>
   (\<forall>a b. count_list (dp b) a = count_list (dp1 b) a
            + (if a \<in> set ks then count_list (deps_of dependencies a) b else 0))"
    by simp
  from Cons.prems(1) have "k \<notin> set ks" by simp
  with one rest show ?case by auto
qed

lemma inDegree0_fold:
  "indeg (fold (\<lambda>t m. fmupd (Name t) 0 m) tables m0) k
     = (if k \<in> Name ` set tables then 0 else indeg m0 k)"
  by (induction tables arbitrary: m0) auto

lemma tableMap_other:
  "n \<notin> Name ` set tables \<Longrightarrow> fold (\<lambda>t m. m(Name t := t)) tables m0 n = m0 n"
  by (induction tables arbitrary: m0) auto

lemma tableMap_fold:
  "distinct (map Name tables) \<Longrightarrow> t \<in> set tables \<Longrightarrow>
   fold (\<lambda>t m. m(Name t := t)) tables m0 (Name t) = t"
proof (induction tables arbitrary: m0)
  case Nil
  then show ?case by simp
next
  case (Cons x xs)
  show ?case
  proof (cases "t \<in> set xs")
    case True
    with Cons show ?thesis by simp
  next
    case False
    with Cons.prems have tx: "t = x" and nx: "Name x \<notin> Name ` set xs" by auto
    have "fold (\<lambda>t m. m(Name t := t)) (x # xs) m0 (Name x)
            = fold (\<lambda>t m. m(Name t := t)) xs (m0(Name x := x)) (Name x)"
      by (simp only: fold.simps comp_apply)
    also have "\<dots> = (m0(Name x := x)) (Name x)"
      by (rule tableMap_other[OF nx])
    also have "\<dots> = x"
      by (simp only: fun_upd_same)
    finally show ?thesis
      by (simp only: tx)
  qed
qed

lemma init_dependencies_fold:
  "fold (\<lambda>t d. if d (Name t) = None then d(Name t \<mapsto> []) else d) tables d0
     = (\<lambda>n. if n \<in> Name ` set tables \<and> d0 n = None then Some [] else d0 n)"
  by (induction tables arbitrary: d0) (auto simp: fun_eq_iff)

lemma fk_fold:
  "deps_of (fold (\<lambda>fk d. if C fk
                 then d(Table fk \<mapsto> (case d (Table fk) of None \<Rightarrow> [] | Some l \<Rightarrow> l)
                                          @ [ReferencedTable fk])
                 else d) fks d0) a
   = deps_of d0 a @ map ReferencedTable (filter (\<lambda>fk. C fk \<and> Table fk = a) fks)"
  by (induction fks arbitrary: d0) (auto simp: deps_of_def)

lemma fk_fold_dom:
  "dom (fold (\<lambda>fk d. if C fk
                 then d(Table fk \<mapsto> (case d (Table fk) of None \<Rightarrow> [] | Some l \<Rightarrow> l)
                                          @ [ReferencedTable fk])
                 else d) fks d0)
   = dom d0 \<union> {Table fk | fk. fk \<in> set fks \<and> C fk}"
  by (induction fks arbitrary: d0) auto

lemma build_dependencies_deps:
  "deps_of (build_dependencies tables fks) a
     = map ReferencedTable
         (filter (\<lambda>fk. (Table fk \<in> Name ` set tables \<and> ReferencedTable fk \<in> Name ` set tables
                        \<and> Table fk \<noteq> ReferencedTable fk) \<and> Table fk = a) fks)"
  unfolding build_dependencies_def Let_def
  by (simp add: fk_fold init_dependencies_fold) (simp add: deps_of_def)

lemma build_dependencies_dom:
  "dom (build_dependencies tables fks) = Name ` set tables"
  unfolding build_dependencies_def Let_def
  by (auto simp: fk_fold_dom init_dependencies_fold split: if_splits)


lemma topologicalSort_core:
  assumes dn: "distinct (map Name tables)" and dk: "distinct ks"
    and sk: "set ks = Name ` set tables"
    and out: "\<forall>a. a \<notin> Name ` set tables \<longrightarrow> deps_of dependencies a = []"
  shows "\<exists>ns. distinct ns \<and> set ns \<subseteq> Name ` set tables \<and> topo (deps_of dependencies) ns
     \<and> (\<forall>t \<in> Name ` set tables. t \<notin> set ns
            \<longrightarrow> (\<exists>d \<in> set (deps_of dependencies t). d \<notin> set ns))
     \<and> topologicalSort ks tables dependencies =
         Inr (map (fold (\<lambda>t m. m(Name t := t)) tables (\<lambda>_. zeroTableInfo)) ns
              @ (if length ns \<noteq> length tables
                 then filter (\<lambda>t. Name t \<notin> set ns) tables else []))"
proof -
  let ?N = "Name ` set tables"
  let ?deps = "deps_of dependencies"
  let ?tm = "fold (\<lambda>t m. m(Name t := t)) tables (\<lambda>_. zeroTableInfo)"
  let ?d0 = "fold (\<lambda>t m. fmupd (Name t) 0 m) tables fmempty"
  let ?step = "\<lambda>table acc. case dependencies table of None \<Rightarrow> acc
                       | Some deps \<Rightarrow> fold (add_dependency table) deps acc"
  obtain dependents inDegree where f: "fold ?step ks (\<lambda>_. [], ?d0) = (dependents, inDegree)"
    by (cases "fold ?step ks (\<lambda>_. [], ?d0)")
  let ?q = "map Name (filter (\<lambda>t. indeg inDegree (Name t) = 0) tables)"
  from dependents_fold[OF dk f]
  have deg0: "\<And>t. indeg inDegree t = indeg ?d0 t
            + (if t \<in> set ks then int (length (?deps t)) else 0)"
    and cnt0: "\<And>a b. count_list (dependents b) a
            = (if a \<in> set ks then count_list (?deps a) b else 0)"
    by simp_all
  have deg: "indeg inDegree t = int (length (?deps t))" for t
    using deg0[of t] out sk by (simp add: inDegree0_fold)
  have link: "\<forall>a b. count_list (dependents b) a = count_list (?deps a) b"
    using cnt0 out sk by simp
  have rng: "\<forall>b. set (dependents b) \<subseteq> ?N"
  proof (intro allI subsetI)
    fix b a assume "a \<in> set (dependents b)"
    then have "count_list (dependents b) a \<noteq> 0" by (simp add: count_list_0_iff)
    with cnt0[of b a] have "a \<in> set ks" by (simp split: if_splits)
    with sk show "a \<in> ?N" by simp
  qed
  have i1: "distinct ([] @ ?q)"
    using dn by (simp add: distinct_map_filter)
  have i2: "\<forall>t. indeg inDegree t = int (length (filter (\<lambda>d. d \<notin> set []) (?deps t)))"
    using deg by simp
  have i3: "\<forall>t \<in> ?N. indeg inDegree t = 0 \<longrightarrow> t \<in> set ([] @ ?q)"
    by auto
  have i4: "\<forall>t \<in> set ([] @ ?q). indeg inDegree t = 0"
    by auto
  have i5: "set ([] @ ?q) \<subseteq> ?N"
    by auto
  have i6: "topo ?deps []"
    by (simp add: topo_def)
  from process_queue_topo[OF link rng i1 i2 i3 i4 i5 i6, of ?tm "[]"]
  obtain ns where ns: "process_queue ?tm dependents inDegree ?q [] = map ?tm ns"
    "distinct ns" "set ns \<subseteq> ?N" "topo ?deps ns"
    "\<forall>t \<in> ?N. t \<notin> set ns \<longrightarrow> (\<exists>d \<in> set (?deps t). d \<notin> set ns)"
    by auto
  have nm: "map Name (map ?tm ns) = ns"
  proof -
    have "Name (?tm n) = n" if "n \<in> set ns" for n
    proof -
      from that ns(3) obtain t where "t \<in> set tables" "Name t = n" by auto
      with tableMap_fold[OF dn, of t "\<lambda>_. zeroTableInfo"] show ?thesis by simp
    qed
    then show ?thesis by (simp add: map_idI)
  qed
  have "topologicalSort ks tables dependencies =
         Inr (map ?tm ns @ (if length ns \<noteq> length tables
                 then filter (\<lambda>t. Name t \<notin> set ns) tables else []))"
    unfolding topologicalSort_def Let_def f split_conv ns(1) nm by simp
  with ns show ?thesis by blast
qed


definition dependency_edges :: "TableInfo list \<Rightarrow> ForeignKey list \<Rightarrow> (string \<times> string) set" where
  "dependency_edges tables fks =
     (\<lambda>fk. (Table fk, ReferencedTable fk)) `
       {fk \<in> set fks. Table fk \<in> Name ` set tables \<and> ReferencedTable fk \<in> Name ` set tables
                       \<and> Table fk \<noteq> ReferencedTable fk}"

lemma build_dependencies_outside:
  "a \<notin> Name ` set tables \<Longrightarrow> deps_of (build_dependencies tables fks) a = []"
  by (auto simp: build_dependencies_deps filter_empty_conv)

lemma build_dependencies_edges:
  "b \<in> set (deps_of (build_dependencies tables fks) a) \<longleftrightarrow> (a, b) \<in> dependency_edges tables fks"
  by (auto simp: build_dependencies_deps dependency_edges_def)

lemma mset_map_tableMap:
  assumes dn: "distinct (map Name tables)" and d: "distinct ns"
    and sub: "set ns \<subseteq> Name ` set tables"
  shows "mset (map (fold (\<lambda>t m. m(Name t := t)) tables (\<lambda>_. zeroTableInfo)) ns)
           = mset (filter (\<lambda>t. Name t \<in> set ns) tables)"
proof -
  let ?tm = "fold (\<lambda>t m. m(Name t := t)) tables (\<lambda>_. zeroTableInfo)"
  have tm: "?tm (Name t) = t" if "t \<in> set tables" for t
    using tableMap_fold[OF dn that] .
  have nm: "Name (?tm n) = n \<and> ?tm n \<in> set tables" if "n \<in> set ns" for n
  proof -
    from that sub obtain t where "t \<in> set tables" "Name t = n" by auto
    with tm[of t] show ?thesis by auto
  qed
  have "inj_on ?tm (set ns)"
    by (rule inj_on_inverseI[where g = Name]) (simp add: nm)
  with d have d1: "distinct (map ?tm ns)" by (simp add: distinct_map)
  from dn have d2: "distinct (filter (\<lambda>t. Name t \<in> set ns) tables)"
    by (simp add: distinct_map)
  have seteq: "set (map ?tm ns) = set (filter (\<lambda>t. Name t \<in> set ns) tables)"
  proof (intro equalityI subsetI)
    fix t assume "t \<in> set (map ?tm ns)"
    then obtain n where "n \<in> set ns" "t = ?tm n" by auto
    with nm[of n] show "t \<in> set (filter (\<lambda>t. Name t \<in> set ns) tables)" by simp
  next
    fix t assume "t \<in> set (filter (\<lambda>t. Name t \<in> set ns) tables)"
    then have "t \<in> set tables" "Name t \<in> set ns" by auto
    with tm[of t] show "t \<in> set (map ?tm ns)" by force
  qed
  show ?thesis
    using set_eq_iff_mset_eq_distinct[OF d1 d2] seteq by blast
qed

lemma all_names_if_length:
  assumes dn: "distinct (map Name tables)" and d: "distinct ns"
    and sub: "set ns \<subseteq> Name ` set tables" and len: "length ns = length tables"
  shows "set ns = Name ` set tables"
proof (rule card_subset_eq[OF _ sub])
  show "finite (Name ` set tables)" by simp
  have "card (Name ` set tables) = length tables"
    using dn distinct_card[of "map Name tables"] by simp
  then show "card (set ns) = card (Name ` set tables)"
    using d len by (simp add: distinct_card)
qed


text \<open>
  The composite literals of schema\_test.go: \<open>TableInfo{Name: n}\<close> and a
  \<open>ForeignKey\<close> from a table to the table it references.
\<close>

definition table_named :: "string \<Rightarrow> TableInfo" where
  "table_named n = \<lparr>Name = n, CreateStmt = [], TableColumns = [], RowCount = 0\<rparr>"

definition foreign_key :: "string \<Rightarrow> string \<Rightarrow> ForeignKey" where
  "foreign_key a b =
     \<lparr>Table = a, Column = ''fk'', ReferencedTable = b, ReferencedColumn = ''id''\<rparr>"

lemmas sort_eval = SortTablesByDependency_def topologicalSort_def build_dependencies_def
  add_dependency_def indeg_def table_named_def foreign_key_def Let_def

section \<open>Properties of the dependency ordering\<close>

text \<open>
  Claim C1: for every input list of tables (a set of tables: their names are pairwise
  distinct, as the names of one schema are), every list of foreign keys
  (self-references, cycles and references to tables outside the list included) and
  every order in which the map iteration visits the keys of \<open>dependencies\<close>,
  \<open>SortTablesByDependency\<close> returns a list and no error, and the list is a
  permutation of the input: every input table is in it exactly once.
\<close>

theorem C1_sort_returns_permutation:
  assumes "distinct (map Name tables)"
    and "distinct ks" and "set ks = dom (build_dependencies tables fks)"
  shows "\<exists>out. SortTablesByDependency ks (Inr fks) tables = Inr out
           \<and> mset out = mset tables \<and> distinct out"
proof -
  let ?N = "Name ` set tables"
  let ?tm = "fold (\<lambda>t m. m(Name t := t)) tables (\<lambda>_. zeroTableInfo)"
  have sk: "set ks = ?N" using assms(3) by (simp add: build_dependencies_dom)
  from topologicalSort_core[OF assms(1,2) sk, of "build_dependencies tables fks"]
  obtain ns where ns: "distinct ns" "set ns \<subseteq> ?N"
    and res: "topologicalSort ks tables (build_dependencies tables fks) =
         Inr (map ?tm ns @ (if length ns \<noteq> length tables
                 then filter (\<lambda>t. Name t \<notin> set ns) tables else []))"
    by (auto simp: build_dependencies_outside)
  let ?out = "map ?tm ns @ (if length ns \<noteq> length tables
                 then filter (\<lambda>t. Name t \<notin> set ns) tables else [])"
  have m1: "mset (map ?tm ns) = mset (filter (\<lambda>t. Name t \<in> set ns) tables)"
    by (rule mset_map_tableMap[OF assms(1) ns])
  have m: "mset ?out = mset tables"
  proof (cases "length ns \<noteq> length tables")
    case True
    then have o: "?out = map ?tm ns @ filter (\<lambda>t. Name t \<notin> set ns) tables"
      by simp
    have p: "mset (filter (\<lambda>t. Name t \<in> set ns) tables)
            + mset (filter (\<lambda>t. Name t \<notin> set ns) tables) = mset tables"
      using multiset_partition[of "mset tables" "\<lambda>t. Name t \<in> set ns"] by simp
    have "mset (map ?tm ns @ filter (\<lambda>t. Name t \<notin> set ns) tables)
            = mset (map ?tm ns) + mset (filter (\<lambda>t. Name t \<notin> set ns) tables)"
      by (rule mset_append)
    also have "\<dots> = mset tables"
      by (simp only: m1 p)
    finally show ?thesis
      by (simp only: o)
  next
    case False
    then have "set ns = ?N" using all_names_if_length[OF assms(1) ns] by simp
    then have "filter (\<lambda>t. Name t \<in> set ns) tables = tables" by (simp add: filter_id_conv)
    with False m1 show ?thesis by simp
  qed
  from assms(1) have dt: "distinct tables" by (simp add: distinct_map)
  have "distinct ?out \<longleftrightarrow> distinct tables"
    by (rule mset_eq_imp_distinct_iff[OF m])
  with dt have "distinct ?out" by blast
  with m res show ?thesis by (simp add: SortTablesByDependency_def)
qed


theorem C1_sort_returns_permutation_witness:
  "distinct (map Name [table_named ''a'', table_named ''b'', table_named ''c''])
   \<and> distinct [''c'', ''a'', ''b'']
   \<and> set [''c'', ''a'', ''b'']
       = dom (build_dependencies [table_named ''a'', table_named ''b'', table_named ''c'']
                [foreign_key ''a'' ''b'', foreign_key ''b'' ''a'', foreign_key ''c'' ''c''])
   \<and> SortTablesByDependency [''c'', ''a'', ''b'']
         (Inr [foreign_key ''a'' ''b'', foreign_key ''b'' ''a'', foreign_key ''c'' ''c''])
         [table_named ''a'', table_named ''b'', table_named ''c'']
       = Inr [table_named ''c'', table_named ''a'', table_named ''b'']
   \<and> mset [table_named ''c'', table_named ''a'', table_named ''b'']
       = mset [table_named ''a'', table_named ''b'', table_named ''c'']"
proof -
  let ?tables = "[table_named ''a'', table_named ''b'', table_named ''c'']"
  let ?fks = "[foreign_key ''a'' ''b'', foreign_key ''b'' ''a'', foreign_key ''c'' ''c'']"
  let ?ks = "[''c'', ''a'', ''b'']"
  have h1: "distinct (map Name ?tables)"
    by (simp add: table_named_def)
  have h2: "distinct ?ks"
    by simp
  have h3: "set ?ks = dom (build_dependencies ?tables ?fks)"
    by (auto simp: build_dependencies_dom table_named_def)
  have e: "SortTablesByDependency ?ks (Inr ?fks) ?tables
             = Inr [table_named ''c'', table_named ''a'', table_named ''b'']"
    by (simp add: sort_eval)
  from C1_sort_returns_permutation[OF h1 h2 h3] e
  have "mset [table_named ''c'', table_named ''a'', table_named ''b''] = mset ?tables"
    by auto
  with h1 h2 h3 e show ?thesis
    by blast
qed

text \<open>
  Claim C2: for every input list of tables (a set of tables: names pairwise distinct),
  every order in which the map iteration visits the keys of \<open>dependencies\<close>, and every
  list of foreign keys whose edges between distinct tables of the input are acyclic:
  for every such edge, where table \<open>a\<close> depends on table \<open>b\<close>, the position of \<open>b\<close>
  in the output of \<open>SortTablesByDependency\<close> is strictly before the position of \<open>a\<close>
  (\<open>dependency_edges\<close> drops self-references and edges that leave the input).
\<close>

theorem C2_dependency_precedes_dependent:
  assumes "distinct (map Name tables)"
    and "distinct ks" and "set ks = dom (build_dependencies tables fks)"
    and "acyclic (dependency_edges tables fks)"
    and "(a, b) \<in> dependency_edges tables fks"
  shows "\<exists>out i j. SortTablesByDependency ks (Inr fks) tables = Inr out
           \<and> distinct (map Name out) \<and> i < j \<and> j < length out
           \<and> Name (out ! i) = b \<and> Name (out ! j) = a"
proof -
  let ?N = "Name ` set tables"
  let ?tm = "fold (\<lambda>t m. m(Name t := t)) tables (\<lambda>_. zeroTableInfo)"
  let ?deps = "deps_of (build_dependencies tables fks)"
  let ?E = "dependency_edges tables fks"
  have sk: "set ks = ?N" using assms(3) by (simp add: build_dependencies_dom)
  from topologicalSort_core[OF assms(1,2) sk, of "build_dependencies tables fks"]
  obtain ns where ns: "distinct ns" "set ns \<subseteq> ?N" and tp: "topo ?deps ns"
    and stuck: "\<forall>t \<in> ?N. t \<notin> set ns \<longrightarrow> (\<exists>d \<in> set (?deps t). d \<notin> set ns)"
    and res: "topologicalSort ks tables (build_dependencies tables fks) =
         Inr (map ?tm ns @ (if length ns \<noteq> length tables
                 then filter (\<lambda>t. Name t \<notin> set ns) tables else []))"
    by (auto simp: build_dependencies_outside)
  have EN: "x \<in> ?N \<and> y \<in> ?N" if "(x, y) \<in> ?E" for x y
    using that by (auto simp: dependency_edges_def)
  have all: "set ns = ?N"
  proof (rule ccontr)
    assume "set ns \<noteq> ?N"
    with ns(2) have ne: "?N - set ns \<noteq> {}" by auto
    have "finite ?E" by (simp add: dependency_edges_def)
    then have "wf (?E\<inverse>)" using assms(4) by (rule finite_acyclic_wf_converse)
    from ne obtain t where "t \<in> ?N - set ns" by auto
    with \<open>wf (?E\<inverse>)\<close> obtain z where z: "z \<in> ?N - set ns"
      and zmin: "\<And>y. (y, z) \<in> ?E\<inverse> \<Longrightarrow> y \<notin> ?N - set ns"
      by (rule wfE_min) blast
    from z stuck obtain d where d: "d \<in> set (?deps z)" "d \<notin> set ns" by auto
    then have e: "(z, d) \<in> ?E" by (simp add: build_dependencies_edges)
    with EN have "d \<in> ?N" by blast
    with d(2) zmin[of d] e show False by auto
  qed
  then have len: "length ns = length tables"
    using ns(1) assms(1) distinct_card[of ns] distinct_card[of "map Name tables"] by simp
  have nm: "Name (?tm n) = n" if "n \<in> set ns" for n
  proof -
    from that ns(2) obtain t where "t \<in> set tables" "Name t = n" by auto
    with tableMap_fold[OF assms(1), of t "\<lambda>_. zeroTableInfo"] show ?thesis by simp
  qed
  then have names: "map Name (map ?tm ns) = ns" by (simp add: map_idI)
  from EN[OF assms(5)] all have "a \<in> set ns" by simp
  then obtain j where j: "j < length ns" "ns ! j = a" by (auto simp: in_set_conv_nth)
  from assms(5) have "b \<in> set (?deps a)" by (simp add: build_dependencies_edges)
  with tp j have "b \<in> set (take j ns)" by (auto simp: topo_def)
  then obtain i where i: "i < length (take j ns)" "take j ns ! i = b"
    by (auto simp: in_set_conv_nth)
  then have ij: "i < j" "ns ! i = b" by simp_all
  have "SortTablesByDependency ks (Inr fks) tables = Inr (map ?tm ns)"
    using res len by (simp add: SortTablesByDependency_def)
  moreover have "distinct (map Name (map ?tm ns))" using names ns(1) by simp
  moreover have "Name (map ?tm ns ! i) = b" "Name (map ?tm ns ! j) = a"
  proof -
    have ii: "i < length ns" using ij(1) j(1) by simp
    show "Name (map ?tm ns ! i) = b"
      using nm[OF nth_mem[OF ii]] ii ij(2) by simp
    show "Name (map ?tm ns ! j) = a"
      using nm[OF nth_mem[OF j(1)]] j by simp
  qed
  ultimately show ?thesis using ij(1) j(1) by (intro exI[of _ "map ?tm ns"] exI[of _ i] exI[of _ j]) simp
qed



theorem C2_dependency_precedes_dependent_witness:
  "distinct (map Name [table_named ''orders'', table_named ''users''])
   \<and> distinct [''orders'', ''users'']
   \<and> set [''orders'', ''users'']
       = dom (build_dependencies [table_named ''orders'', table_named ''users'']
                [foreign_key ''orders'' ''users'', foreign_key ''users'' ''users''])
   \<and> acyclic (dependency_edges [table_named ''orders'', table_named ''users'']
                [foreign_key ''orders'' ''users'', foreign_key ''users'' ''users''])
   \<and> (''orders'', ''users'') \<in> dependency_edges [table_named ''orders'', table_named ''users'']
                [foreign_key ''orders'' ''users'', foreign_key ''users'' ''users'']
   \<and> SortTablesByDependency [''orders'', ''users'']
         (Inr [foreign_key ''orders'' ''users'', foreign_key ''users'' ''users''])
         [table_named ''orders'', table_named ''users'']
       = Inr [table_named ''users'', table_named ''orders'']
   \<and> (\<exists>i j. i < j \<and> j < length [table_named ''users'', table_named ''orders'']
         \<and> Name ([table_named ''users'', table_named ''orders''] ! i) = ''users''
         \<and> Name ([table_named ''users'', table_named ''orders''] ! j) = ''orders'')"
proof -
  let ?tables = "[table_named ''orders'', table_named ''users'']"
  let ?fks = "[foreign_key ''orders'' ''users'', foreign_key ''users'' ''users'']"
  let ?ks = "[''orders'', ''users'']"
  have h1: "distinct (map Name ?tables)"
    by (simp add: table_named_def)
  have h2: "distinct ?ks"
    by simp
  have h3: "set ?ks = dom (build_dependencies ?tables ?fks)"
    by (auto simp: build_dependencies_dom table_named_def)
  have h4: "acyclic (dependency_edges ?tables ?fks)"
    by (rule acyclicI_order[where f = "\<lambda>n. if n = ''users'' then 0 else (1::nat)"])
       (auto simp: dependency_edges_def table_named_def foreign_key_def)
  have h5: "(''orders'', ''users'') \<in> dependency_edges ?tables ?fks"
    by (simp add: build_dependencies_edges[symmetric] build_dependencies_deps
        table_named_def foreign_key_def)
  have e: "SortTablesByDependency ?ks (Inr ?fks) ?tables
             = Inr [table_named ''users'', table_named ''orders'']"
    by (simp add: sort_eval)
  from C2_dependency_precedes_dependent[OF h1 h2 h3 h4 h5] e
  have "\<exists>i j. i < j \<and> j < length [table_named ''users'', table_named ''orders'']
         \<and> Name ([table_named ''users'', table_named ''orders''] ! i) = ''users''
         \<and> Name ([table_named ''users'', table_named ''orders''] ! j) = ''orders''"
    by auto
  with h1 h2 h3 h4 h5 e show ?thesis
    by blast
qed

text \<open>
  Claim C6 (tables that become ready together are emitted in input order, and two runs
  on the same input give the same sequence) against the code: with the tables
  \<open>parent, a, b\<close> and the edges \<open>a \<rightarrow> parent\<close>, \<open>b \<rightarrow> parent\<close>, both \<open>a\<close> and \<open>b\<close>
  become ready when \<open>parent\<close> is emitted. When the map iteration visits \<open>a\<close> before
  \<open>b\<close> the output is \<open>parent, a, b\<close>; when it visits \<open>b\<close> first the output is
  \<open>parent, b, a\<close>, which is neither the input order nor the first run's sequence.
\<close>

theorem C6_order_follows_map_iteration:
  "SortTablesByDependency [''parent'', ''a'', ''b'']
     (Inr [foreign_key ''a'' ''parent'', foreign_key ''b'' ''parent''])
     [table_named ''parent'', table_named ''a'', table_named ''b'']
   = Inr [table_named ''parent'', table_named ''a'', table_named ''b'']
   \<and> SortTablesByDependency [''b'', ''parent'', ''a'']
     (Inr [foreign_key ''a'' ''parent'', foreign_key ''b'' ''parent''])
     [table_named ''parent'', table_named ''a'', table_named ''b'']
   = Inr [table_named ''parent'', table_named ''b'', table_named ''a'']"
  by (simp add: sort_eval)

section \<open>Retention configuration: date parsing (internal/config/config.go)\<close>

text \<open>
  \<open>time.Parse\<close> belongs to the Go standard library and the YAML decoder to a third-party
  library: \<open>parseDate\<close> takes the parser as its argument \<open>time_Parse\<close> (layout and text
  to an error or a time), and \<open>UnmarshalYAML\<close> takes the node as what its two
  \<open>Decode\<close> calls make of it: an integer, an object with the two strings
  \<open>column_name\<close> and \<open>after_date\<close>, or neither. Errors are values of \<open>config_error\<close>.
\<close>

datatype 'e config_error =
    CouldNotParseDate
  | RetainNotIntegerOrObject 'e
  | RetainRequiresColumnName
  | RetainRequiresAfterDate
  | InvalidAfterDateFormat string "'e config_error"

definition RFC3339 :: string where
  "RFC3339 = ''2006-01-02T15:04:05Z07:00''"

definition formats :: "string list" where
  "formats = [''2006-01-02'', ''2006-01-02T15:04:05'', ''2006-01-02 15:04:05'', RFC3339]"

fun try_formats :: "(string \<Rightarrow> string \<Rightarrow> 'e + 't) \<Rightarrow> string list \<Rightarrow> string \<Rightarrow> 'e config_error + 't" where
  "try_formats time_Parse [] s = Inl CouldNotParseDate"
| "try_formats time_Parse (format # rest) s =
     (case time_Parse format s of
        Inr t \<Rightarrow> Inr t
      | Inl err \<Rightarrow> try_formats time_Parse rest s)"

definition parseDate :: "(string \<Rightarrow> string \<Rightarrow> 'e + 't) \<Rightarrow> string \<Rightarrow> 'e config_error + 't" where
  "parseDate time_Parse s = try_formats time_Parse formats s"

record 't RetainConfig =
  Count :: int
  RetainColumnName :: string
  AfterDate :: 't

datatype 'e yaml_node = IntNode int | ObjectNode string string | UndecodableNode 'e

definition UnmarshalYAML ::
  "(string \<Rightarrow> string \<Rightarrow> 'e + 't) \<Rightarrow> 'e yaml_node \<Rightarrow> 't RetainConfig
     \<Rightarrow> 'e config_error + 't RetainConfig" where
  "UnmarshalYAML time_Parse node r =
     (case node of
        IntNode intVal \<Rightarrow> Inr (r\<lparr>Count := intVal\<rparr>)
      | UndecodableNode err \<Rightarrow> Inl (RetainNotIntegerOrObject err)
      | ObjectNode column_name after_date \<Rightarrow>
          if column_name = [] then Inl RetainRequiresColumnName
          else if after_date = [] then Inl RetainRequiresAfterDate
          else (case parseDate time_Parse after_date of
                  Inl err \<Rightarrow> Inl (InvalidAfterDateFormat after_date err)
                | Inr parsedDate \<Rightarrow>
                    Inr (r\<lparr>RetainColumnName := column_name, AfterDate := parsedDate\<rparr>)))"

section \<open>Properties of the retention date parser\<close>

lemma try_formats_find:
  "try_formats p fs s =
     (case find (\<lambda>f. \<not> isl (p f s)) fs of
        None \<Rightarrow> Inl CouldNotParseDate
      | Some f \<Rightarrow> Inr (projr (p f s)))"
  by (induction fs) (auto split: sum.splits)

text \<open>
  Claim C8: \<open>parseDate\<close> tries exactly the four layouts \<open>2006-01-02\<close>,
  \<open>2006-01-02T15:04:05\<close>, \<open>2006-01-02 15:04:05\<close> and RFC 3339, in this order. If the
  text parses under at least one layout, \<open>parseDate\<close> succeeds with the result of the
  first layout under which it parses, and \<open>UnmarshalYAML\<close> of a retention object with
  that text stores this result as the threshold, next to the column name; if the text
  parses under none, \<open>parseDate\<close> returns an error, and \<open>UnmarshalYAML\<close> returns that
  error wrapped, not a default date. The other nodes never reach the parser: an
  integer sets the row count, an object without column name or date is an error.
\<close>

theorem C8_parseDate_first_matching_format:
  "formats = [''2006-01-02'', ''2006-01-02T15:04:05'', ''2006-01-02 15:04:05'',
              ''2006-01-02T15:04:05Z07:00'']
   \<and> ((\<exists>f \<in> set formats. \<not> isl (time_Parse f s)) \<longrightarrow>
        (\<exists>i < length formats. \<exists>t. time_Parse (formats ! i) s = Inr t
            \<and> (\<forall>j < i. isl (time_Parse (formats ! j) s))
            \<and> parseDate time_Parse s = Inr t
            \<and> (column_name \<noteq> [] \<and> s \<noteq> [] \<longrightarrow>
                 UnmarshalYAML time_Parse (ObjectNode column_name s) r
                   = Inr (r\<lparr>RetainColumnName := column_name, AfterDate := t\<rparr>))))
   \<and> ((\<forall>f \<in> set formats. isl (time_Parse f s)) \<longrightarrow>
        parseDate time_Parse s = Inl CouldNotParseDate
        \<and> (column_name \<noteq> [] \<and> s \<noteq> [] \<longrightarrow>
             UnmarshalYAML time_Parse (ObjectNode column_name s) r
               = Inl (InvalidAfterDateFormat s CouldNotParseDate)))
   \<and> UnmarshalYAML time_Parse (IntNode n) r = Inr (r\<lparr>Count := n\<rparr>)
   \<and> UnmarshalYAML time_Parse (UndecodableNode e) r = Inl (RetainNotIntegerOrObject e)
   \<and> UnmarshalYAML time_Parse (ObjectNode [] s) r = Inl RetainRequiresColumnName
   \<and> (column_name \<noteq> [] \<longrightarrow>
        UnmarshalYAML time_Parse (ObjectNode column_name []) r = Inl RetainRequiresAfterDate)"
proof (intro conjI impI)
  show "formats = [''2006-01-02'', ''2006-01-02T15:04:05'', ''2006-01-02 15:04:05'',
              ''2006-01-02T15:04:05Z07:00'']"
    by (simp add: formats_def RFC3339_def)
next
  assume "\<exists>f \<in> set formats. \<not> isl (time_Parse f s)"
  then obtain f where "find (\<lambda>f. \<not> isl (time_Parse f s)) formats = Some f"
    by (cases "find (\<lambda>f. \<not> isl (time_Parse f s)) formats") (auto simp: find_None_iff)
  then obtain i where i: "i < length formats" "\<not> isl (time_Parse (formats ! i) s)"
      "f = formats ! i" "\<forall>j < i. isl (time_Parse (formats ! j) s)"
    by (auto simp: find_Some_iff)
  from i(2) obtain t where t: "time_Parse (formats ! i) s = Inr t"
    by (cases "time_Parse (formats ! i) s") auto
  have p: "parseDate time_Parse s = Inr t"
    using \<open>find _ formats = Some f\<close> i(3) t by (simp add: parseDate_def try_formats_find)
  then have "column_name \<noteq> [] \<and> s \<noteq> [] \<longrightarrow>
                 UnmarshalYAML time_Parse (ObjectNode column_name s) r
                   = Inr (r\<lparr>RetainColumnName := column_name, AfterDate := t\<rparr>)"
    by (simp add: UnmarshalYAML_def)
  with i t p show "\<exists>i < length formats. \<exists>t. time_Parse (formats ! i) s = Inr t
            \<and> (\<forall>j < i. isl (time_Parse (formats ! j) s))
            \<and> parseDate time_Parse s = Inr t
            \<and> (column_name \<noteq> [] \<and> s \<noteq> [] \<longrightarrow>
                 UnmarshalYAML time_Parse (ObjectNode column_name s) r
                   = Inr (r\<lparr>RetainColumnName := column_name, AfterDate := t\<rparr>))"
    by blast
next
  assume a: "\<forall>f \<in> set formats. isl (time_Parse f s)"
  then have "find (\<lambda>f. \<not> isl (time_Parse f s)) formats = None"
    by (simp add: find_None_iff)
  then show p: "parseDate time_Parse s = Inl CouldNotParseDate"
    by (simp add: parseDate_def try_formats_find)
  assume "column_name \<noteq> [] \<and> s \<noteq> []"
  with p show "UnmarshalYAML time_Parse (ObjectNode column_name s) r
               = Inl (InvalidAfterDateFormat s CouldNotParseDate)"
    by (simp add: UnmarshalYAML_def)
next
  show "UnmarshalYAML time_Parse (IntNode n) r = Inr (r\<lparr>Count := n\<rparr>)"
    by (simp add: UnmarshalYAML_def)
  show "UnmarshalYAML time_Parse (UndecodableNode e) r = Inl (RetainNotIntegerOrObject e)"
    by (simp add: UnmarshalYAML_def)
  show "UnmarshalYAML time_Parse (ObjectNode [] s) r = Inl RetainRequiresColumnName"
    by (simp add: UnmarshalYAML_def)
next
  assume "column_name \<noteq> []"
  then show "UnmarshalYAML time_Parse (ObjectNode column_name []) r = Inl RetainRequiresAfterDate"
    by (simp add: UnmarshalYAML_def)
qed

text \<open>
  A stand-in for \<open>time.Parse\<close>: it accepts one text under the third and the fourth
  layout, with different results, and another text under the first layout.
\<close>

definition sample_time_Parse :: "string \<Rightarrow> string \<Rightarrow> unit + nat" where
  "sample_time_Parse layout v =
     (if layout = ''2006-01-02 15:04:05'' \<and> v = ''2024-01-01 10:00:00'' then Inr 1704103200
      else if layout = RFC3339 \<and> v = ''2024-01-01 10:00:00'' then Inr 5
      else if layout = ''2006-01-02'' \<and> v = ''2024-01-01'' then Inr 1704067200
      else Inl ())"

theorem C8_parseDate_first_matching_format_witness:
  "parseDate sample_time_Parse ''2024-01-01 10:00:00'' = Inr 1704103200
   \<and> parseDate sample_time_Parse ''2024-01-01'' = Inr 1704067200
   \<and> UnmarshalYAML sample_time_Parse (ObjectNode ''created_at'' ''2024-01-01 10:00:00'')
        \<lparr>Count = 0, RetainColumnName = [], AfterDate = 0\<rparr>
      = Inr \<lparr>Count = 0, RetainColumnName = ''created_at'', AfterDate = 1704103200\<rparr>
   \<and> list_all (\<lambda>f. isl (sample_time_Parse f ''yesterday'')) formats
   \<and> parseDate sample_time_Parse ''yesterday'' = Inl CouldNotParseDate
   \<and> UnmarshalYAML sample_time_Parse (ObjectNode ''created_at'' ''yesterday'')
        \<lparr>Count = 0, RetainColumnName = [], AfterDate = 0\<rparr>
      = Inl (InvalidAfterDateFormat ''yesterday'' CouldNotParseDate)
   \<and> UnmarshalYAML sample_time_Parse (IntNode 100) \<lparr>Count = 0, RetainColumnName = [], AfterDate = 0\<rparr>
      = Inr \<lparr>Count = 100, RetainColumnName = [], AfterDate = 0\<rparr>
   \<and> UnmarshalYAML sample_time_Parse (ObjectNode ''created_at'' [])
        \<lparr>Count = 0, RetainColumnName = [], AfterDate = 0\<rparr> = Inl RetainRequiresAfterDate"
proof -
  let ?r = "\<lparr>Count = 0, RetainColumnName = [], AfterDate = (0::nat)\<rparr>"
  have h1: "\<exists>f \<in> set formats. \<not> isl (sample_time_Parse f ''2024-01-01 10:00:00'')"
    by (simp add: formats_def sample_time_Parse_def RFC3339_def)
  have h2: "\<forall>f \<in> set formats. isl (sample_time_Parse f ''yesterday'')"
    by (simp add: formats_def sample_time_Parse_def RFC3339_def)
  have h3: "''created_at'' \<noteq> [] \<and> ''2024-01-01 10:00:00'' \<noteq> []"
      "''created_at'' \<noteq> [] \<and> ''yesterday'' \<noteq> []"
    by simp_all
  note th1 = C8_parseDate_first_matching_format[of sample_time_Parse "''2024-01-01 10:00:00''" "''created_at''" ?r 100]
  note th2 = C8_parseDate_first_matching_format[of sample_time_Parse "''yesterday''" "''created_at''" ?r]
  from th1 h1 h3(1) obtain i t where it: "i < length formats"
    "sample_time_Parse (formats ! i) ''2024-01-01 10:00:00'' = Inr t"
    "\<forall>j < i. isl (sample_time_Parse (formats ! j) ''2024-01-01 10:00:00'')"
    "parseDate sample_time_Parse ''2024-01-01 10:00:00'' = Inr t"
    "UnmarshalYAML sample_time_Parse (ObjectNode ''created_at'' ''2024-01-01 10:00:00'') ?r
       = Inr (?r\<lparr>RetainColumnName := ''created_at'', AfterDate := t\<rparr>)"
    by blast
  have "\<not> isl (sample_time_Parse (formats ! 2) ''2024-01-01 10:00:00'')"
    by (simp add: formats_def sample_time_Parse_def)
  with it(3) have "\<not> 2 < i" by blast
  with it(1,2) have "t = 1704103200"
    by (auto simp: formats_def sample_time_Parse_def RFC3339_def less_Suc_eq numeral_3_eq_3 numeral_2_eq_2
        split: if_splits)
  with it have a: "parseDate sample_time_Parse ''2024-01-01 10:00:00'' = Inr 1704103200"
    "UnmarshalYAML sample_time_Parse (ObjectNode ''created_at'' ''2024-01-01 10:00:00'') ?r
       = Inr \<lparr>Count = 0, RetainColumnName = ''created_at'', AfterDate = 1704103200\<rparr>"
    by simp_all
  have a2: "parseDate sample_time_Parse ''2024-01-01'' = Inr 1704067200"
    by (simp add: parseDate_def formats_def sample_time_Parse_def RFC3339_def)
  from th2 h2 h3(2) have b: "parseDate sample_time_Parse ''yesterday'' = Inl CouldNotParseDate"
    "UnmarshalYAML sample_time_Parse (ObjectNode ''created_at'' ''yesterday'') ?r
      = Inl (InvalidAfterDateFormat ''yesterday'' CouldNotParseDate)"
    by blast+
  from th1 have c: "UnmarshalYAML sample_time_Parse (IntNode 100) ?r
      = Inr \<lparr>Count = 100, RetainColumnName = [], AfterDate = 0\<rparr>"
    "UnmarshalYAML sample_time_Parse (ObjectNode ''created_at'' []) ?r = Inl RetainRequiresAfterDate"
    by simp_all
  from h2 have h2': "list_all (\<lambda>f. isl (sample_time_Parse f ''yesterday'')) formats"
    by (simp add: list_all_iff)
  from a a2 b c h2' show ?thesis by blast
qed

section \<open>Anonymiser (internal/anonymiser)\<close>

text \<open>
  \<open>Config\<close>, \<open>Connection\<close> and \<open>TableConfig\<close> are the structs of config.go. A nil
  \<open>Configuration\<close> map, a missing table and a nil \<open>*TableConfig\<close> all make
  \<open>GetTableConfig\<close> return nil and are one case here (\<open>None\<close>); the \<open>Columns\<close> map
  is optional, since the code tests it against nil.
\<close>

record Connection =
  Type :: string
  Host :: string
  Port :: int
  Username :: string
  Password :: string
  DatabaseName :: string
  File :: string

record 't TableConfig =
  Truncate :: bool
  TableForeignKeyIntegrity :: "bool option"
  Retain :: "'t RetainConfig"
  Columns :: "(string \<rightharpoonup> string) option"

record 't Config =
  Connection :: Connection
  ForeignKeyIntegrity :: "bool option"
  Configuration :: "string \<rightharpoonup> 't TableConfig"

definition GetTableConfig :: "'t Config \<Rightarrow> string \<Rightarrow> 't TableConfig option" where
  "GetTableConfig c tableName = Configuration c tableName"

text \<open>
  \<open>fakerPattern\<close> is the regular expression \<^verbatim>\<open>\{\{faker\.(\w+)\}\}\<close>.
  \<open>FindStringSubmatch\<close> returns the first group of its leftmost match, if there is one:
  \<open>match_here\<close> matches at the start of the text (the eight characters \<open>{{faker.\<close>,
  then the longest run of word characters, which must not be empty and must be followed
  by \<open>}}\<close>; a shorter run is followed by a word character and cannot match), and
  \<open>FindStringSubmatch\<close> tries every start from the left. A word character is an ASCII
  letter, a digit or the underscore.
\<close>

definition word_chars :: string where
  "word_chars = ''0123456789ABCDEFGHIJKLMNOPQRSTUVWXYZ_abcdefghijklmnopqrstuvwxyz''"

definition is_word_char :: "char \<Rightarrow> bool" where
  "is_word_char c = (c \<in> set word_chars)"

definition match_here :: "string \<Rightarrow> string option" where
  "match_here s =
     (if take 8 s = ''{{faker.''
      then let funcName = takeWhile is_word_char (drop 8 s);
               after = dropWhile is_word_char (drop 8 s)
           in if funcName \<noteq> [] \<and> take 2 after = ''}}'' then Some funcName else None
      else None)"

fun FindStringSubmatch :: "string \<Rightarrow> string option" where
  "FindStringSubmatch [] = match_here []"
| "FindStringSubmatch (c # cs) =
     (case match_here (c # cs) of
        Some funcName \<Rightarrow> Some funcName
      | None \<Rightarrow> FindStringSubmatch cs)"


text \<open>
  The generators come from the library gofakeit, which draws on a source of randomness:
  a \<open>FakerFunc\<close> takes the state \<open>'g\<close> of that source and returns the text and the
  next state, and the library is the argument \<open>gofakeit\<close> of the model, a function from
  the name of the library call (\<open>Name\<close>, \<open>Email\<close>, \<open>Password\<close> for
  \<open>Password(true, true, true, true, false, 32)\<close>, \<open>Date\<close> for the formatted date,
  \<open>Sentence\<close> for \<open>Sentence(10)\<close>, \<open>DigitN\<close> for \<open>DigitN(8)\<close>) to its behaviour.
\<close>

type_synonym 'g FakerFunc = "'g \<Rightarrow> string \<times> 'g"

definition fakerFunctions :: "(string \<Rightarrow> 'g FakerFunc) \<Rightarrow> (string \<rightharpoonup> 'g FakerFunc)" where
  "fakerFunctions gofakeit = map_of
     [(''name'', gofakeit ''Name''),
      (''firstName'', gofakeit ''FirstName''),
      (''lastName'', gofakeit ''LastName''),
      (''email'', gofakeit ''Email''),
      (''phone'', gofakeit ''Phone''),
      (''address'', gofakeit ''Street''),
      (''city'', gofakeit ''City''),
      (''country'', gofakeit ''Country''),
      (''company'', gofakeit ''Company''),
      (''uuid'', gofakeit ''UUID''),
      (''username'', gofakeit ''Username''),
      (''password'', gofakeit ''Password''),
      (''ipv4'', gofakeit ''IPv4Address''),
      (''date'', gofakeit ''Date''),
      (''text'', gofakeit ''Sentence''),
      (''number'', gofakeit ''DigitN'')]"

definition GetFakerFunc :: "(string \<Rightarrow> 'g FakerFunc) \<Rightarrow> string \<Rightarrow> 'g FakerFunc option" where
  "GetFakerFunc gofakeit name = fakerFunctions gofakeit name"

definition GenerateFakeValue :: "(string \<Rightarrow> 'g FakerFunc) \<Rightarrow> string \<Rightarrow> 'g FakerFunc" where
  "GenerateFakeValue gofakeit funcName g =
     (case GetFakerFunc gofakeit funcName of
        Some fn \<Rightarrow> fn g
      | None \<Rightarrow> ([], g))"

text \<open>
  A row is a Go map from column names to values; \<open>nil\<close> is the value \<open>VNil\<close> under a
  key that is present. The locks of the \<open>Anonymiser\<close> are left out: rows are processed
  one at a time. \<open>anonymise_column\<close> is the body of the loop over the rules of a table
  for one column and its rule; \<open>originalStr_of\<close> is the type switch that gives the
  text for the consistency key.
\<close>

type_synonym row = "string \<rightharpoonup> value"

record 't Anonymiser =
  config :: "'t Config"
  consistencyMap :: "string \<rightharpoonup> string"

definition New :: "'t Config \<Rightarrow> 't Anonymiser" where
  "New cfg = \<lparr>config = cfg, consistencyMap = Map.empty\<rparr>"

definition originalStr_of :: "value \<Rightarrow> string" where
  "originalStr_of originalVal = (case originalVal of VString v \<Rightarrow> v | _ \<Rightarrow> [])"

definition anonymise_column ::
  "(string \<Rightarrow> 'g FakerFunc) \<Rightarrow> string \<Rightarrow> string \<Rightarrow> row \<times> (string \<rightharpoonup> string) \<times> 'g
     \<Rightarrow> row \<times> (string \<rightharpoonup> string) \<times> 'g" where
  "anonymise_column gofakeit col rule = (\<lambda>(result, cm, g).
     case result col of
       None \<Rightarrow> (result, cm, g)
     | Some originalVal \<Rightarrow>
         if rule = ''null'' \<or> rule = [] then (result(col \<mapsto> VNil), cm, g)
         else
           let originalStr = originalStr_of originalVal
           in (case FindStringSubmatch rule of
                 Some funcName \<Rightarrow>
                   let key = col @ '':'' @ originalStr
                   in (case cm key of
                         Some cached \<Rightarrow> (result(col \<mapsto> VString cached), cm, g)
                       | None \<Rightarrow>
                           let (newVal, g') = GenerateFakeValue gofakeit funcName g;
                               cm' = (if originalStr \<noteq> [] then cm(key \<mapsto> newVal) else cm)
                           in (result(col \<mapsto> VString newVal), cm', g'))
               | None \<Rightarrow> (result(col \<mapsto> VString rule), cm, g)))"

text \<open>
  The loop ranges over the map \<open>tableConfig.Columns\<close>: \<open>ks\<close> is the order in which the
  iteration visits its keys, \<open>rule_step\<close> the loop body for the key \<open>col\<close>. Row maps
  live in a heap, a list of rows addressed by position, so that returning the argument
  and returning a copy differ: a row reference is an address, or \<open>None\<close> for a nil map,
  which reads as empty. \<open>make\<close> allocates at the end of the heap.
\<close>

definition rule_step ::
  "(string \<Rightarrow> 'g FakerFunc) \<Rightarrow> (string \<rightharpoonup> string) \<Rightarrow> string
     \<Rightarrow> row \<times> (string \<rightharpoonup> string) \<times> 'g \<Rightarrow> row \<times> (string \<rightharpoonup> string) \<times> 'g" where
  "rule_step gofakeit rules col acc =
     (case rules col of None \<Rightarrow> acc | Some rule \<Rightarrow> anonymise_column gofakeit col rule acc)"

type_synonym heap = "row list"

definition deref :: "heap \<Rightarrow> nat option \<Rightarrow> row" where
  "deref h r = (case r of None \<Rightarrow> Map.empty | Some a \<Rightarrow> h ! a)"

definition AnonymiseRow ::
  "(string \<Rightarrow> 'g FakerFunc) \<Rightarrow> string list \<Rightarrow> string \<Rightarrow> nat option
     \<Rightarrow> 't Anonymiser \<times> 'g \<times> heap \<Rightarrow> nat option \<times> 't Anonymiser \<times> 'g \<times> heap" where
  "AnonymiseRow gofakeit ks tableName row = (\<lambda>(a, g, h).
     case GetTableConfig (config a) tableName of
       None \<Rightarrow> (row, a, g, h)
     | Some tableConfig \<Rightarrow>
         (case Columns tableConfig of
            None \<Rightarrow> (row, a, g, h)
          | Some rules \<Rightarrow>
              let (result, cm, g') =
                    fold (rule_step gofakeit rules) ks (deref h row, consistencyMap a, g)
              in (Some (length h), a\<lparr>consistencyMap := cm\<rparr>, g', h @ [result])))"

text \<open>
  A run of the exporter calls \<open>AnonymiseRow\<close> row after row on one \<open>Anonymiser\<close>:
  \<open>run\<close> threads the state through the calls and collects the returned references.
  \<open>result_row\<close> is the row that a call returned.
\<close>

fun run ::
  "(string \<Rightarrow> 'g FakerFunc) \<Rightarrow> (string list \<times> string \<times> nat option) list
     \<Rightarrow> 't Anonymiser \<times> 'g \<times> heap \<Rightarrow> nat option list \<times> 't Anonymiser \<times> 'g \<times> heap" where
  "run gofakeit [] st = ([], st)"
| "run gofakeit ((ks, tableName, row) # calls) st =
     (case AnonymiseRow gofakeit ks tableName row st of
        (r, st') \<Rightarrow> (case run gofakeit calls st' of (rs, st'') \<Rightarrow> (r # rs, st'')))"

definition result_row :: "nat option \<times> 't Anonymiser \<times> 'g \<times> heap \<Rightarrow> row" where
  "result_row out = (case out of (r, a, g, h) \<Rightarrow> deref h r)"



text \<open>
  Fixtures: a generator library whose every call returns the name of the call followed
  by as many plus signs as calls were made before, and the configuration literal of
  the tests, tables with their column rules.
\<close>

definition counting_gofakeit :: "string \<Rightarrow> nat FakerFunc" where
  "counting_gofakeit generator n = (generator @ replicate n (CHR ''+''), Suc n)"

definition config_with :: "(string \<times> (string \<times> string) list) list \<Rightarrow> nat Config" where
  "config_with tables =
     \<lparr>Connection = \<lparr>Type = [], Host = [], Port = 0, Username = [], Password = [],
                      DatabaseName = [], File = []\<rparr>,
      ForeignKeyIntegrity = None,
      Configuration = map_of (map (\<lambda>(tableName, rules).
         (tableName,
          \<lparr>Truncate = False, TableForeignKeyIntegrity = None,
           Retain = \<lparr>Count = 0, RetainColumnName = [], AfterDate = 0\<rparr>,
           Columns = Some (map_of rules)\<rparr>)) tables)\<rparr>"

section \<open>Properties of the anonymiser\<close>

lemma FindStringSubmatch_null [simp]: "FindStringSubmatch ''null'' = None"
  by (simp add: match_here_def)

lemma FindStringSubmatch_Nil [simp]: "FindStringSubmatch [] = None"
  by (simp add: match_here_def)

lemma anonymise_column_other:
  "anonymise_column gofakeit col rule (result, cm, g) = (result', cm', g') \<Longrightarrow>
   c \<noteq> col \<Longrightarrow> result' c = result c"
  by (auto simp: anonymise_column_def Let_def split: option.splits if_splits prod.splits)

lemma anonymise_column_dom:
  "anonymise_column gofakeit col rule (result, cm, g) = (result', cm', g') \<Longrightarrow>
   dom result' = dom result"
  by (auto simp: anonymise_column_def Let_def split: option.splits if_splits prod.splits)

lemma anonymise_column_map_le:
  "anonymise_column gofakeit col rule (result, cm, g) = (result', cm', g') \<Longrightarrow>
   cm \<subseteq>\<^sub>m cm'"
  by (auto simp: anonymise_column_def Let_def map_le_def split: option.splits if_splits prod.splits)

lemma anonymise_column_faker:
  assumes "anonymise_column gofakeit col rule (result, cm, g) = (result', cm', g')"
    and "result col = Some v0" and "FindStringSubmatch rule = Some f"
  shows "\<exists>s. result' col = Some (VString s)
           \<and> (case cm (col @ '':'' @ originalStr_of v0) of
                 Some cached \<Rightarrow> s = cached \<and> cm' = cm \<and> g' = g
               | None \<Rightarrow> (s, g') = GenerateFakeValue gofakeit f g
                   \<and> cm' = (if originalStr_of v0 \<noteq> []
                            then cm(col @ '':'' @ originalStr_of v0 \<mapsto> s) else cm))"
proof -
  from assms(3) have "rule \<noteq> ''null''" "rule \<noteq> []"
    by (auto simp: match_here_def)
  with assms show ?thesis
    by (auto simp: anonymise_column_def Let_def originalStr_of_def
        split: option.splits prod.splits)
qed


lemma rule_step_other:
  "rule_step gofakeit rules k (result, cm, g) = (result', cm', g') \<Longrightarrow>
   c \<noteq> k \<or> rules c = None \<Longrightarrow> result' c = result c"
  by (cases "rules k") (auto simp: rule_step_def dest: anonymise_column_other)

lemma rule_step_dom:
  "rule_step gofakeit rules k (result, cm, g) = (result', cm', g') \<Longrightarrow> dom result' = dom result"
  by (cases "rules k") (simp_all add: rule_step_def anonymise_column_dom)

lemma rule_step_map_le:
  "rule_step gofakeit rules k (result, cm, g) = (result', cm', g') \<Longrightarrow> cm \<subseteq>\<^sub>m cm'"
  by (cases "rules k") (auto simp: rule_step_def dest: anonymise_column_map_le)

lemma fold_rule_step_other:
  "fold (rule_step gofakeit rules) ks (result, cm, g) = (result', cm', g') \<Longrightarrow>
   c \<notin> set ks \<or> rules c = None \<Longrightarrow> result' c = result c"
proof (induction ks arbitrary: result cm g)
  case Nil
  then show ?case by simp
next
  case (Cons k ks)
  obtain r1 cm1 g1 where s: "rule_step gofakeit rules k (result, cm, g) = (r1, cm1, g1)"
    by (cases "rule_step gofakeit rules k (result, cm, g)")
  with Cons.prems(1) have "fold (rule_step gofakeit rules) ks (r1, cm1, g1) = (result', cm', g')"
    by simp
  from Cons.IH[OF this] Cons.prems(2) have "result' c = r1 c" by auto
  moreover from rule_step_other[OF s, of c] Cons.prems(2) have "r1 c = result c" by auto
  ultimately show ?case by simp
qed

lemma fold_rule_step_dom:
  "fold (rule_step gofakeit rules) ks (result, cm, g) = (result', cm', g') \<Longrightarrow>
   dom result' = dom result"
proof (induction ks arbitrary: result cm g)
  case Nil
  then show ?case by simp
next
  case (Cons k ks)
  obtain r1 cm1 g1 where s: "rule_step gofakeit rules k (result, cm, g) = (r1, cm1, g1)"
    by (cases "rule_step gofakeit rules k (result, cm, g)")
  with Cons.prems(1) have "fold (rule_step gofakeit rules) ks (r1, cm1, g1) = (result', cm', g')"
    by simp
  from Cons.IH[OF this] rule_step_dom[OF s] show ?case by simp
qed

lemma fold_rule_step_map_le:
  "fold (rule_step gofakeit rules) ks (result, cm, g) = (result', cm', g') \<Longrightarrow> cm \<subseteq>\<^sub>m cm'"
proof (induction ks arbitrary: result cm g)
  case Nil
  then show ?case by simp
next
  case (Cons k ks)
  obtain r1 cm1 g1 where s: "rule_step gofakeit rules k (result, cm, g) = (r1, cm1, g1)"
    by (cases "rule_step gofakeit rules k (result, cm, g)")
  with Cons.prems(1) have "fold (rule_step gofakeit rules) ks (r1, cm1, g1) = (result', cm', g')"
    by simp
  from Cons.IH[OF this] rule_step_map_le[OF s] show ?case by (rule map_le_trans[rotated])
qed

text \<open>The step for one column of a run over distinct keys, with the state before and after it.\<close>

lemma fold_rule_step_at:
  assumes f: "fold (rule_step gofakeit rules) ks (result, cm, g) = (result', cm', g')"
    and d: "distinct ks" and c: "col \<in> set ks"
  shows "\<exists>r1 cm1 g1 r2 cm2 g2.
           rule_step gofakeit rules col (r1, cm1, g1) = (r2, cm2, g2)
           \<and> r1 col = result col \<and> cm \<subseteq>\<^sub>m cm1 \<and> cm2 \<subseteq>\<^sub>m cm' \<and> result' col = r2 col"
proof -
  from c obtain xs ys where ks: "ks = xs @ col # ys" by (auto simp: in_set_conv_decomp)
  with d have nx: "col \<notin> set xs" and ny: "col \<notin> set ys" by auto
  obtain r1 cm1 g1 where a: "fold (rule_step gofakeit rules) xs (result, cm, g) = (r1, cm1, g1)"
    by (cases "fold (rule_step gofakeit rules) xs (result, cm, g)")
  obtain r2 cm2 g2 where b: "rule_step gofakeit rules col (r1, cm1, g1) = (r2, cm2, g2)"
    by (cases "rule_step gofakeit rules col (r1, cm1, g1)")
  from f a b have e: "fold (rule_step gofakeit rules) ys (r2, cm2, g2) = (result', cm', g')"
    by (simp add: ks)
  have "r1 col = result col"
    using fold_rule_step_other[OF a] nx by simp
  moreover have "cm \<subseteq>\<^sub>m cm1" by (rule fold_rule_step_map_le[OF a])
  moreover have "cm2 \<subseteq>\<^sub>m cm'" by (rule fold_rule_step_map_le[OF e])
  moreover have "result' col = r2 col"
    using fold_rule_step_other[OF e] ny by simp
  ultimately show ?thesis using b by blast
qed

lemma deref_append: "a < length h \<Longrightarrow> deref (h @ ext) (Some a) = deref h (Some a)"
  by (simp add: deref_def nth_append)

lemma AnonymiseRow_frame:
  assumes "AnonymiseRow gofakeit ks t row (a, g, h) = (r, a', g', h')"
  shows "config a' = config a \<and> consistencyMap a \<subseteq>\<^sub>m consistencyMap a' \<and> (\<exists>ext. h' = h @ ext)"
proof (cases "GetTableConfig (config a) t")
  case None
  with assms show ?thesis by (simp add: AnonymiseRow_def)
next
  case (Some tc)
  show ?thesis
  proof (cases "Columns tc")
    case None
    with Some assms show ?thesis by (simp add: AnonymiseRow_def)
  next
    case (Some rules)
    obtain res cm g1 where f: "fold (rule_step gofakeit rules) ks (deref h row, consistencyMap a, g)
        = (res, cm, g1)"
      by (cases "fold (rule_step gofakeit rules) ks (deref h row, consistencyMap a, g)")
    with Some \<open>GetTableConfig (config a) t = Some tc\<close> assms
    have "a' = a\<lparr>consistencyMap := cm\<rparr>" "h' = h @ [res]"
      by (simp_all add: AnonymiseRow_def)
    with fold_rule_step_map_le[OF f] show ?thesis by simp
  qed
qed

lemma AnonymiseRow_configured:
  assumes "AnonymiseRow gofakeit ks t row (a, g, h) = (r, a', g', h')"
    and "Configuration (config a) t = Some tc" and "Columns tc = Some rules"
  shows "\<exists>res cm. fold (rule_step gofakeit rules) ks (deref h row, consistencyMap a, g)
             = (res, cm, g')
           \<and> r = Some (length h) \<and> h' = h @ [res] \<and> a' = a\<lparr>consistencyMap := cm\<rparr>"
proof -
  obtain res cm g1 where f: "fold (rule_step gofakeit rules) ks (deref h row, consistencyMap a, g)
        = (res, cm, g1)"
    by (cases "fold (rule_step gofakeit rules) ks (deref h row, consistencyMap a, g)")
  with assms show ?thesis
    by (simp add: AnonymiseRow_def GetTableConfig_def)
qed

lemma AnonymiseRow_faker:
  assumes call: "AnonymiseRow gofakeit ks t row (a, g, h) = (r, a', g', h')"
    and tc: "Configuration (config a) t = Some tc" "Columns tc = Some rules"
    and rule: "rules col = Some rule" "FindStringSubmatch rule = Some f"
    and ks: "distinct ks" "col \<in> set ks"
    and v0: "deref h row col = Some v0"
  shows "\<exists>s. r = Some (length h) \<and> length h' = Suc (length h)
           \<and> deref h' r col = Some (VString s)
           \<and> (originalStr_of v0 \<noteq> []
                \<longrightarrow> consistencyMap a' (col @ '':'' @ originalStr_of v0) = Some s)
           \<and> (\<forall>c. consistencyMap a (col @ '':'' @ originalStr_of v0) = Some c \<longrightarrow> s = c)
           \<and> (GetFakerFunc gofakeit f = None
                \<longrightarrow> s = [] \<or> consistencyMap a' (col @ '':'' @ originalStr_of v0) = Some s)"
proof -
  let ?key = "col @ '':'' @ originalStr_of v0"
  from AnonymiseRow_configured[OF call tc]
  obtain res cm where f: "fold (rule_step gofakeit rules) ks (deref h row, consistencyMap a, g)
             = (res, cm, g')"
    and r: "r = Some (length h)" "h' = h @ [res]" "a' = a\<lparr>consistencyMap := cm\<rparr>"
    by blast
  from fold_rule_step_at[OF f ks]
  obtain r1 cm1 g1 r2 cm2 g2 where
    st: "rule_step gofakeit rules col (r1, cm1, g1) = (r2, cm2, g2)"
    and r1: "r1 col = deref h row col" and le1: "consistencyMap a \<subseteq>\<^sub>m cm1"
    and le2: "cm2 \<subseteq>\<^sub>m cm" and res: "res col = r2 col"
    by blast
  from st rule(1) have ac: "anonymise_column gofakeit col rule (r1, cm1, g1) = (r2, cm2, g2)"
    by (simp add: rule_step_def)
  from anonymise_column_faker[OF ac _ rule(2), of v0] r1 v0
  obtain s where s: "r2 col = Some (VString s)"
    and cases: "case cm1 ?key of
                 Some cached \<Rightarrow> s = cached \<and> cm2 = cm1 \<and> g2 = g1
               | None \<Rightarrow> (s, g2) = GenerateFakeValue gofakeit f g1
                   \<and> cm2 = (if originalStr_of v0 \<noteq> [] then cm1(?key \<mapsto> s) else cm1)"
    by auto
  have d: "deref h' r col = Some (VString s)"
    using r res s by (simp add: deref_def)
  have p1: "originalStr_of v0 \<noteq> [] \<longrightarrow> cm ?key = Some s"
  proof
    assume "originalStr_of v0 \<noteq> []"
    with cases have "cm2 ?key = Some s" by (auto split: option.splits)
    with le2 show "cm ?key = Some s" by (auto simp: map_le_def dom_def)
  qed
  have p2: "\<forall>c. consistencyMap a ?key = Some c \<longrightarrow> s = c"
  proof (intro allI impI)
    fix c assume "consistencyMap a ?key = Some c"
    with le1 have "cm1 ?key = Some c" by (auto simp: map_le_def dom_def)
    with cases show "s = c" by simp
  qed
  have p3: "GetFakerFunc gofakeit f = None \<longrightarrow> s = [] \<or> cm ?key = Some s"
  proof
    assume n: "GetFakerFunc gofakeit f = None"
    show "s = [] \<or> cm ?key = Some s"
    proof (cases "cm1 ?key")
      case None
      with cases n show ?thesis by (auto simp: GenerateFakeValue_def)
    next
      case (Some c)
      with cases have "cm2 ?key = Some s" by simp
      with le2 show ?thesis by (auto simp: map_le_def dom_def)
    qed
  qed
  from d p1 p2 p3 r show ?thesis by simp
qed

lemma run_append:
  "run gofakeit (xs @ ys) st =
     (case run gofakeit xs st of
        (rs1, st1) \<Rightarrow> (case run gofakeit ys st1 of (rs2, st2) \<Rightarrow> (rs1 @ rs2, st2)))"
  by (induction xs arbitrary: st) (auto split: prod.splits)

lemma run_frame:
  "run gofakeit calls (a, g, h) = (rs, a', g', h') \<Longrightarrow>
   config a' = config a \<and> consistencyMap a \<subseteq>\<^sub>m consistencyMap a' \<and> (\<exists>ext. h' = h @ ext)
   \<and> length rs = length calls"
proof (induction calls arbitrary: a g h rs)
  case Nil
  then show ?case by simp
next
  case (Cons c calls)
  obtain ks t row where c: "c = (ks, t, row)" by (cases c)
  obtain r a1 g1 h1 where one: "AnonymiseRow gofakeit ks t row (a, g, h) = (r, a1, g1, h1)"
    by (cases "AnonymiseRow gofakeit ks t row (a, g, h)")
  obtain rs1 where rest: "run gofakeit calls (a1, g1, h1) = (rs1, a', g', h')" and rs: "rs = r # rs1"
    using Cons.prems one by (auto simp: c split: prod.splits)
  from AnonymiseRow_frame[OF one] Cons.IH[OF rest] rs show ?case
    by (auto intro: map_le_trans)
qed

lemma same_substitute_in_run:
  assumes run: "run gofakeit (pre @ (ks1, t1, Some p) # mid @ (ks2, t2, Some q) # post) (a0, g0, h0)
                  = (rs, a', g', h')"
    and c1: "Configuration (config a0) t1 = Some tc1" "Columns tc1 = Some rules1"
            "rules1 col = Some rule1" "FindStringSubmatch rule1 = Some f1"
            "distinct ks1" "col \<in> set ks1"
    and c2: "Configuration (config a0) t2 = Some tc2" "Columns tc2 = Some rules2"
            "rules2 col = Some rule2" "FindStringSubmatch rule2 = Some f2"
            "distinct ks2" "col \<in> set ks2"
    and rows: "p < length h0" "q < length h0"
            "(h0 ! p) col = Some (VString s)" "(h0 ! q) col = Some (VString s)" "s \<noteq> []"
  shows "\<exists>v. deref h' (rs ! length pre) col = Some (VString v)
           \<and> deref h' (rs ! (length pre + 1 + length mid)) col = Some (VString v)
           \<and> consistencyMap a' (col @ '':'' @ s) = Some v"
proof -
  let ?key = "col @ '':'' @ s"
  obtain rs0 a1 g1 h1 where r0: "run gofakeit pre (a0, g0, h0) = (rs0, a1, g1, h1)"
    by (cases "run gofakeit pre (a0, g0, h0)")
  obtain r1 a2 g2 h2 where r1: "AnonymiseRow gofakeit ks1 t1 (Some p) (a1, g1, h1) = (r1, a2, g2, h2)"
    by (cases "AnonymiseRow gofakeit ks1 t1 (Some p) (a1, g1, h1)")
  obtain rsm a3 g3 h3 where rm: "run gofakeit mid (a2, g2, h2) = (rsm, a3, g3, h3)"
    by (cases "run gofakeit mid (a2, g2, h2)")
  obtain r2 a4 g4 h4 where r2: "AnonymiseRow gofakeit ks2 t2 (Some q) (a3, g3, h3) = (r2, a4, g4, h4)"
    by (cases "AnonymiseRow gofakeit ks2 t2 (Some q) (a3, g3, h3)")
  obtain rsp a5 g5 h5 where rp: "run gofakeit post (a4, g4, h4) = (rsp, a5, g5, h5)"
    by (cases "run gofakeit post (a4, g4, h4)")
  from run r0 r1 rm r2 rp
  have fin: "rs = rs0 @ r1 # rsm @ r2 # rsp" "a' = a5" "h' = h5"
    by (simp_all add: run_append)
  from run_frame[OF r0] obtain e1 where
    f0: "config a1 = config a0" "h1 = h0 @ e1" "length rs0 = length pre"
    by blast
  from AnonymiseRow_frame[OF r1] obtain e2 where
    f1: "config a2 = config a1" "h2 = h1 @ e2"
    by blast
  from run_frame[OF rm] obtain e3 where
    f2: "config a3 = config a2" "consistencyMap a2 \<subseteq>\<^sub>m consistencyMap a3" "h3 = h2 @ e3"
      "length rsm = length mid"
    by blast
  from AnonymiseRow_frame[OF r2] obtain e4 where
    f3: "h4 = h3 @ e4"
    by blast
  from run_frame[OF rp] obtain e5 where
    f4: "consistencyMap a4 \<subseteq>\<^sub>m consistencyMap a5" "h5 = h4 @ e5"
    by blast
  have vp: "deref h1 (Some p) col = Some (VString s)"
    using rows(1,3) f0(2) by (simp add: deref_def nth_append)
  have vq: "deref h3 (Some q) col = Some (VString s)"
    using rows(2,4) f0(2) f1(2) f2(3) by (simp add: deref_def nth_append)
  have os: "originalStr_of (VString s) = s"
    by (simp add: originalStr_of_def)
  from AnonymiseRow_faker[OF r1 _ c1(2,3,4,5,6) vp] c1(1) f0(1)
  obtain v where v: "r1 = Some (length h1)" "length h2 = Suc (length h1)"
      "deref h2 r1 col = Some (VString v)" "consistencyMap a2 ?key = Some v"
    using rows(5) by (auto simp: os)
  from f2(2) v(4) have k3: "consistencyMap a3 ?key = Some v"
    by (auto simp: map_le_def dom_def)
  from AnonymiseRow_faker[OF r2 _ c2(2,3,4,5,6) vq] c2(1) f0(1) f1(1) f2(1)
  obtain w where w: "r2 = Some (length h3)" "length h4 = Suc (length h3)"
      "deref h4 r2 col = Some (VString w)" "consistencyMap a4 ?key = Some w"
      "\<forall>c. consistencyMap a3 ?key = Some c \<longrightarrow> w = c"
    using rows(5) by (auto simp: os)
  from w(5) k3 have wv: "w = v" by simp
  have i1: "rs ! length pre = r1"
    using fin(1) f0(3) by (simp add: nth_append)
  have i2: "rs ! (length pre + 1 + length mid) = r2"
    using fin(1) f0(3) f2(4) by (simp add: nth_append)
  have d1: "deref h' r1 col = Some (VString v)"
  proof -
    have "h' = h2 @ (e3 @ e4 @ e5)" using fin(3) f4(2) f3 f2(3) by simp
    moreover have "length h1 < length h2" using v(2) by simp
    ultimately show ?thesis using v(1,3) deref_append[of "length h1" h2 "e3 @ e4 @ e5"] by simp
  qed
  have d2: "deref h' r2 col = Some (VString v)"
  proof -
    have "h' = h4 @ e5" using fin(3) f4(2) by simp
    moreover have "length h3 < length h4" using w(2) by simp
    ultimately show ?thesis using w(1,3) wv deref_append[of "length h3" h4 e5] by simp
  qed
  have "consistencyMap a' ?key = Some v"
    using f4(1) w(4) wv fin(2) by (auto simp: map_le_def dom_def)
  with d1 d2 i1 i2 show ?thesis by simp
qed

text \<open>\<open>results_at col\<close> lists what the calls of a run returned in column \<open>col\<close>.\<close>

definition results_at :: "string \<Rightarrow> nat option list \<times> 't Anonymiser \<times> 'g \<times> heap \<Rightarrow> value option list" where
  "results_at col out = (case out of (rs, a, g, h) \<Rightarrow> map (\<lambda>r. deref h r col) rs)"

definition users_email_config :: "nat Config" where
  "users_email_config =
     config_with [(''users'', [(''email'', ''{{faker.email}}''), (''id'', ''{{faker.number}}'')]),
                  (''customers'', [(''email'', ''{{faker.email}}'')])]"

definition same_email_run ::
  "nat option list \<times> nat Anonymiser \<times> nat \<times> heap" where
  "same_email_run = run counting_gofakeit
     [([''email'', ''id''], ''users'', Some 0), ([''id'', ''email''], ''users'', Some 1),
      ([''email'', ''id''], ''users'', Some 2)]
     (New users_email_config, 0,
      [[''id'' \<mapsto> VInt 1, ''email'' \<mapsto> VString ''a@x.com''],
       [''id'' \<mapsto> VInt 2, ''email'' \<mapsto> VString ''a@x.com''],
       [''id'' \<mapsto> VInt 3, ''email'' \<mapsto> VString ''b@x.com'']])"

definition empty_email_run ::
  "nat option list \<times> nat Anonymiser \<times> nat \<times> heap" where
  "empty_email_run = run counting_gofakeit
     [([''email''], ''customers'', Some 0), ([''email''], ''customers'', Some 1)]
     (New users_email_config, 0,
      [[''email'' \<mapsto> VString []], [''email'' \<mapsto> VString []]])"

lemmas anonymiser_eval = New_def config_with_def AnonymiseRow_def
      GetTableConfig_def rule_step_def anonymise_column_def originalStr_of_def match_here_def
      is_word_char_def word_chars_def GenerateFakeValue_def GetFakerFunc_def fakerFunctions_def
      counting_gofakeit_def deref_def Let_def results_at_def result_row_def

definition equal_id_run ::
  "nat option list \<times> nat Anonymiser \<times> nat \<times> heap" where
  "equal_id_run = run counting_gofakeit
     [([''id'', ''email''], ''users'', Some 0), ([''id'', ''email''], ''users'', Some 1)]
     (New users_email_config, 0,
      [[''id'' \<mapsto> VInt 5, ''name'' \<mapsto> VString ''Ann''],
       [''id'' \<mapsto> VInt 5, ''name'' \<mapsto> VString ''Bob'']])"

text \<open>
  Claim C3, as stated, fails. Two rows of one table whose \<open>email\<close> is the empty string
  receive different substitutes from the rule \<open>{{faker.email}}\<close>: an empty original
  text is never stored in the consistency map. Two rows whose \<open>id\<close> is the integer 5
  receive different substitutes from \<open>{{faker.number}}\<close>: a value that is not a string
  is not stringified, its key text is empty.
\<close>

theorem C3_empty_string_not_consistent:
  "results_at ''email'' empty_email_run = [Some (VString ''Email''), Some (VString ''Email+'')]
   \<and> results_at ''id'' equal_id_run = [Some (VString ''DigitN''), Some (VString ''DigitN+'')]"
  by (simp add: empty_email_run_def equal_id_run_def users_email_config_def anonymiser_eval)

text \<open>
  Claim C3, amended: within one run, for every column ruled by a faker template in a
  table, any two rows of that table whose original value in the column is the same
  non-empty string receive the identical substitute string from \<open>AnonymiseRow\<close>,
  whatever calls come before, between and after them; the substitute is stored in the
  consistency map under the key made of the column name, a colon and the original
  string.
\<close>

theorem C3_same_string_same_substitute:
  assumes "run gofakeit (pre @ (ks1, t, Some p) # mid @ (ks2, t, Some q) # post) (a0, g0, h0)
             = (rs, a', g', h')"
    and "Configuration (config a0) t = Some tc" and "Columns tc = Some rules"
    and "rules col = Some rule" and "FindStringSubmatch rule = Some f"
    and "distinct ks1" and "set ks1 = dom rules" and "distinct ks2" and "set ks2 = dom rules"
    and "p < length h0" and "q < length h0"
    and "(h0 ! p) col = Some (VString s)" and "(h0 ! q) col = Some (VString s)" and "s \<noteq> []"
  shows "\<exists>v. deref h' (rs ! length pre) col = Some (VString v)
           \<and> deref h' (rs ! (length pre + 1 + length mid)) col = Some (VString v)
           \<and> consistencyMap a' (col @ '':'' @ s) = Some v"
proof -
  from assms(4,7,9) have "col \<in> set ks1" "col \<in> set ks2" by auto
  with same_substitute_in_run[OF assms(1) assms(2,3,4,5,6) _ assms(2,3,4,5,8) _ assms(10-14)]
  show ?thesis by blast
qed

theorem C3_same_string_same_substitute_witness:
  "results_at ''email'' same_email_run
     = [Some (VString ''Email''), Some (VString ''Email''), Some (VString ''Email+++'')]
   \<and> consistencyMap (fst (snd same_email_run)) ''email:a@x.com'' = Some ''Email''"
proof -
  let ?cfg = "users_email_config"
  let ?h0 = "[[''id'' \<mapsto> VInt 1, ''email'' \<mapsto> VString ''a@x.com''],
       [''id'' \<mapsto> VInt 2, ''email'' \<mapsto> VString ''a@x.com''],
       [''id'' \<mapsto> VInt 3, ''email'' \<mapsto> VString ''b@x.com'']]"
  let ?rules = "map_of [(''email'', ''{{faker.email}}''), (''id'', ''{{faker.number}}'')]"
  let ?tc = "\<lparr>Truncate = False, TableForeignKeyIntegrity = None,
           Retain = \<lparr>Count = 0, RetainColumnName = [], AfterDate = (0::nat)\<rparr>,
           Columns = Some ?rules\<rparr>"
  obtain rs a' g' h' where R: "same_email_run = (rs, a', g', h')"
    by (cases same_email_run)
  have r: "run counting_gofakeit
     ([] @ ([''email'', ''id''], ''users'', Some 0) # [] @ ([''id'', ''email''], ''users'', Some 1)
         # [([''email'', ''id''], ''users'', Some 2)])
     (New ?cfg, 0, ?h0) = (rs, a', g', h')"
    using R by (simp add: same_email_run_def)
  have h1: "Configuration (config (New ?cfg)) ''users'' = Some ?tc"
    by (simp add: New_def users_email_config_def config_with_def)
  have h2: "Columns ?tc = Some ?rules" "?rules ''email'' = Some ''{{faker.email}}''"
    by simp_all
  have h3: "FindStringSubmatch ''{{faker.email}}'' = Some ''email''"
    by (simp add: match_here_def is_word_char_def word_chars_def)
  have h4: "distinct [''email'', ''id'']" "set [''email'', ''id''] = dom ?rules"
      "distinct [''id'', ''email'']" "set [''id'', ''email''] = dom ?rules"
    by auto
  have h5: "0 < length ?h0" "1 < length ?h0"
      "(?h0 ! 0) ''email'' = Some (VString ''a@x.com'')"
      "(?h0 ! 1) ''email'' = Some (VString ''a@x.com'')" "''a@x.com'' \<noteq> []"
    by simp_all
  from C3_same_string_same_substitute[OF r h1 h2 h3 h4 h5]
  obtain v where v: "deref h' (rs ! 0) ''email'' = Some (VString v)"
      "deref h' (rs ! 1) ''email'' = Some (VString v)"
      "consistencyMap a' ''email:a@x.com'' = Some v"
    by auto
  have e: "results_at ''email'' same_email_run
     = [Some (VString ''Email''), Some (VString ''Email''), Some (VString ''Email+++'')]"
    by (simp add: same_email_run_def users_email_config_def anonymiser_eval)
  then have m: "map (\<lambda>r. deref h' r ''email'') rs
     = [Some (VString ''Email''), Some (VString ''Email''), Some (VString ''Email+++'')]"
    by (simp add: results_at_def R)
  from arg_cong[OF m, of length] have l: "0 < length rs"
    by simp
  have "map (\<lambda>r. deref h' r ''email'') rs ! 0 = deref h' (rs ! 0) ''email''"
    using l by (rule nth_map)
  with m v(1) have "v = ''Email''"
    by simp
  with v(3) e show ?thesis
    by (simp add: R)
qed

definition two_table_run ::
  "nat option list \<times> nat Anonymiser \<times> nat \<times> heap" where
  "two_table_run = run counting_gofakeit
     [([''id'', ''email''], ''users'', Some 0), ([''email''], ''customers'', Some 1)]
     (New users_email_config, 0,
      [[''id'' \<mapsto> VInt 1, ''email'' \<mapsto> VString ''a@x.com''],
       [''email'' \<mapsto> VString ''a@x.com'', ''name'' \<mapsto> VString ''Ann'']])"

definition two_table_empty_run ::
  "nat option list \<times> nat Anonymiser \<times> nat \<times> heap" where
  "two_table_empty_run = run counting_gofakeit
     [([''email'', ''id''], ''users'', Some 0), ([''email''], ''customers'', Some 1)]
     (New users_email_config, 0,
      [[''id'' \<mapsto> VInt 1, ''email'' \<mapsto> VString []],
       [''email'' \<mapsto> VString [], ''name'' \<mapsto> VString ''Ann'']])"

text \<open>
  Claim C7, as stated, fails for the empty string: a row of \<open>users\<close> and a row of
  \<open>customers\<close> whose \<open>email\<close> is the empty string receive different substitutes,
  since an empty original text is never stored in the consistency map.
\<close>

theorem C7_empty_string_not_shared:
  "results_at ''email'' two_table_empty_run = [Some (VString ''Email''), Some (VString ''Email++'')]"
  by (simp add: two_table_empty_run_def users_email_config_def anonymiser_eval)

text \<open>
  Claim C7, amended: the consistency map is keyed by the column name and the original
  string, not by the table. For every two tables, the same or different, in which the
  same column name is ruled by a faker template, a row of the first and a later row of
  the second that carry the same non-empty original string in that column receive the
  same substitute within one run, stored under the key of column name, colon and
  original string.
\<close>

theorem C7_column_name_is_the_namespace:
  assumes "run gofakeit (pre @ (ks1, t1, Some p) # mid @ (ks2, t2, Some q) # post) (a0, g0, h0)
             = (rs, a', g', h')"
    and "Configuration (config a0) t1 = Some tc1" and "Columns tc1 = Some rules1"
    and "rules1 col = Some rule1" and "FindStringSubmatch rule1 = Some f1"
    and "distinct ks1" and "set ks1 = dom rules1"
    and "Configuration (config a0) t2 = Some tc2" and "Columns tc2 = Some rules2"
    and "rules2 col = Some rule2" and "FindStringSubmatch rule2 = Some f2"
    and "distinct ks2" and "set ks2 = dom rules2"
    and "p < length h0" and "q < length h0"
    and "(h0 ! p) col = Some (VString s)" and "(h0 ! q) col = Some (VString s)" and "s \<noteq> []"
  shows "\<exists>v. deref h' (rs ! length pre) col = Some (VString v)
           \<and> deref h' (rs ! (length pre + 1 + length mid)) col = Some (VString v)
           \<and> consistencyMap a' (col @ '':'' @ s) = Some v"
proof -
  from assms(4,7) have k1: "col \<in> set ks1" by auto
  from assms(10,13) have k2: "col \<in> set ks2" by auto
  from same_substitute_in_run[OF assms(1) assms(2-6) k1 assms(8-12) k2 assms(14-18)]
  show ?thesis .
qed

theorem C7_column_name_is_the_namespace_witness:
  "results_at ''email'' two_table_run = [Some (VString ''Email+''), Some (VString ''Email+'')]
   \<and> consistencyMap (fst (snd two_table_run)) ''email:a@x.com'' = Some ''Email+''"
proof -
  let ?cfg = "users_email_config"
  let ?h0 = "[[''id'' \<mapsto> VInt 1, ''email'' \<mapsto> VString ''a@x.com''],
       [''email'' \<mapsto> VString ''a@x.com'', ''name'' \<mapsto> VString ''Ann'']]"
  let ?rules1 = "map_of [(''email'', ''{{faker.email}}''), (''id'', ''{{faker.number}}'')]"
  let ?rules2 = "map_of [(''email'', ''{{faker.email}}'')]"
  let ?tc1 = "\<lparr>Truncate = False, TableForeignKeyIntegrity = None,
           Retain = \<lparr>Count = 0, RetainColumnName = [], AfterDate = (0::nat)\<rparr>,
           Columns = Some ?rules1\<rparr>"
  let ?tc2 = "\<lparr>Truncate = False, TableForeignKeyIntegrity = None,
           Retain = \<lparr>Count = 0, RetainColumnName = [], AfterDate = (0::nat)\<rparr>,
           Columns = Some ?rules2\<rparr>"
  obtain rs a' g' h' where R: "two_table_run = (rs, a', g', h')"
    by (cases two_table_run)
  have r: "run counting_gofakeit
     ([] @ ([''id'', ''email''], ''users'', Some 0) # [] @ ([''email''], ''customers'', Some 1) # [])
     (New ?cfg, 0, ?h0) = (rs, a', g', h')"
    using R by (simp add: two_table_run_def)
  have h1: "Configuration (config (New ?cfg)) ''users'' = Some ?tc1"
    by (simp add: New_def users_email_config_def config_with_def)
  have h2: "Columns ?tc1 = Some ?rules1" "?rules1 ''email'' = Some ''{{faker.email}}''"
    by simp_all
  have h3: "FindStringSubmatch ''{{faker.email}}'' = Some ''email''"
    by (simp add: match_here_def is_word_char_def word_chars_def)
  have h4: "distinct [''id'', ''email'']" "set [''id'', ''email''] = dom ?rules1"
    by auto
  have h5: "Configuration (config (New ?cfg)) ''customers'' = Some ?tc2"
    by (simp add: New_def users_email_config_def config_with_def)
  have h6: "Columns ?tc2 = Some ?rules2" "?rules2 ''email'' = Some ''{{faker.email}}''"
    by simp_all
  have h7: "distinct [''email'']" "set [''email''] = dom ?rules2"
    by auto
  have h8: "0 < length ?h0" "1 < length ?h0"
      "(?h0 ! 0) ''email'' = Some (VString ''a@x.com'')"
      "(?h0 ! 1) ''email'' = Some (VString ''a@x.com'')" "''a@x.com'' \<noteq> []"
    by simp_all
  from C7_column_name_is_the_namespace[OF r h1 h2 h3 h4 h5 h6 h3 h7 h8]
  obtain v where v: "deref h' (rs ! 0) ''email'' = Some (VString v)"
      "consistencyMap a' ''email:a@x.com'' = Some v"
    by auto
  have e: "results_at ''email'' two_table_run
            = [Some (VString ''Email+''), Some (VString ''Email+'')]"
    by (simp add: two_table_run_def users_email_config_def anonymiser_eval)
  then have m: "map (\<lambda>r. deref h' r ''email'') rs
     = [Some (VString ''Email+''), Some (VString ''Email+'')]"
    by (simp add: results_at_def R)
  from arg_cong[OF m, of length] have l: "0 < length rs"
    by simp
  have "map (\<lambda>r. deref h' r ''email'') rs ! 0 = deref h' (rs ! 0) ''email''"
    using l by (rule nth_map)
  with m v(1) have "v = ''Email+''"
    by simp
  with v(2) e show ?thesis
    by (simp add: R)
qed


definition multi_rule_call :: "nat option \<times> nat Anonymiser \<times> nat \<times> heap" where
  "multi_rule_call =
     AnonymiseRow counting_gofakeit [''phone'', ''nonexistent'', ''email'', ''password''] ''users''
       (Some 0)
       (New (config_with [(''users'', [(''email'', ''{{faker.email}}''), (''password'', ''redacted''),
                                       (''phone'', ''null''), (''nonexistent'', ''{{faker.email}}'')])]),
        0,
        [[''id'' \<mapsto> VInt 1, ''email'' \<mapsto> VString ''john@example.com'',
          ''password'' \<mapsto> VString ''secret123'', ''phone'' \<mapsto> VString ''123-456-7890'']])"

definition unconfigured_call :: "nat option \<times> nat Anonymiser \<times> nat \<times> heap" where
  "unconfigured_call = AnonymiseRow counting_gofakeit [] ''orders'' (Some 0)
     (New (config_with [(''users'', [(''email'', ''{{faker.email}}'')])]), 0,
      [[''id'' \<mapsto> VInt 1, ''total'' \<mapsto> VInt 20]])"









text \<open>
  Claim C9, as stated, fails for a table without column rules: \<open>AnonymiseRow\<close>
  returns the reference it was given, the input map itself and not a new one, and
  allocates nothing.
\<close>

theorem C9_unconfigured_table_returns_input_map:
  "fst unconfigured_call = Some 0 \<and> length (snd (snd (snd unconfigured_call))) = 1"
  by (simp add: unconfigured_call_def anonymiser_eval)

text \<open>
  Claim C9, amended: \<open>AnonymiseRow\<close> never modifies a row that exists when it is
  called, the input row included. For a table with column rules it returns a new map,
  at an address that was not allocated before; for a table without configuration or
  without column rules it returns the input reference itself and leaves the heap as it
  is. In both cases the result has exactly the columns of the input (a ruled column
  absent from the input is not added), and every column without a rule has its
  original value.
\<close>

theorem C9_AnonymiseRow_does_not_mutate:
  assumes "AnonymiseRow gofakeit ks t row (a, g, h) = (r, a', g', h')"
  shows "(\<forall>p < length h. h' ! p = h ! p)
       \<and> dom (deref h' r) = dom (deref h row)
       \<and> (\<forall>c. (\<forall>tc rules. Configuration (config a) t = Some tc \<longrightarrow> Columns tc = Some rules
                    \<longrightarrow> rules c = None)
              \<longrightarrow> deref h' r c = deref h row c)
       \<and> ((\<exists>tc rules. Configuration (config a) t = Some tc \<and> Columns tc = Some rules)
              \<longrightarrow> r = Some (length h) \<and> length h' = Suc (length h))
       \<and> ((\<nexists>tc rules. Configuration (config a) t = Some tc \<and> Columns tc = Some rules)
              \<longrightarrow> r = row \<and> h' = h)"
proof (cases "\<exists>tc rules. Configuration (config a) t = Some tc \<and> Columns tc = Some rules")
  case True
  then obtain tc rules where tc: "Configuration (config a) t = Some tc" "Columns tc = Some rules"
    by blast
  from AnonymiseRow_configured[OF assms tc]
  obtain res cm where f: "fold (rule_step gofakeit rules) ks (deref h row, consistencyMap a, g)
             = (res, cm, g')"
    and r: "r = Some (length h)" "h' = h @ [res]"
    by blast
  have d: "deref h' r = res" using r by (simp add: deref_def)
  have "\<forall>p < length h. h' ! p = h ! p" using r(2) by (simp add: nth_append)
  moreover have "dom (deref h' r) = dom (deref h row)"
    using fold_rule_step_dom[OF f] d by simp
  moreover have "deref h' r c = deref h row c" if "rules c = None" for c
    using fold_rule_step_other[OF f, of c] that d by simp
  ultimately show ?thesis using tc r True by auto
next
  case False
  then have "r = row \<and> h' = h"
    using assms by (auto simp: AnonymiseRow_def GetTableConfig_def split: option.splits)
  with False show ?thesis by simp
qed


theorem C9_AnonymiseRow_does_not_mutate_witness:
  "fst multi_rule_call = Some 1
   \<and> (snd (snd (snd multi_rule_call)) ! 0) ''email'' = Some (VString ''john@example.com'')
   \<and> (snd (snd (snd multi_rule_call)) ! 0) ''phone'' = Some (VString ''123-456-7890'')
   \<and> result_row multi_rule_call ''id'' = Some (VInt 1)
   \<and> result_row multi_rule_call ''nonexistent'' = None
   \<and> result_row multi_rule_call ''phone'' = Some VNil
   \<and> result_row multi_rule_call ''password'' = Some (VString ''redacted'')
   \<and> result_row multi_rule_call ''email'' = Some (VString ''Email'')"
proof -
  let ?cfg = "config_with [(''users'', [(''email'', ''{{faker.email}}''), (''password'', ''redacted''),
                                       (''phone'', ''null''), (''nonexistent'', ''{{faker.email}}'')])]"
  let ?row = "[''id'' \<mapsto> VInt 1, ''email'' \<mapsto> VString ''john@example.com'',
          ''password'' \<mapsto> VString ''secret123'', ''phone'' \<mapsto> VString ''123-456-7890'']"
  let ?rules = "map_of [(''email'', ''{{faker.email}}''), (''password'', ''redacted''),
                        (''phone'', ''null''), (''nonexistent'', ''{{faker.email}}'')]"
  let ?tc = "\<lparr>Truncate = False, TableForeignKeyIntegrity = None,
           Retain = \<lparr>Count = 0, RetainColumnName = [], AfterDate = (0::nat)\<rparr>,
           Columns = Some ?rules\<rparr>"
  obtain r a' g' h' where R: "multi_rule_call = (r, a', g', h')"
    by (cases multi_rule_call)
  then have c: "AnonymiseRow counting_gofakeit [''phone'', ''nonexistent'', ''email'', ''password'']
                  ''users'' (Some 0) (New ?cfg, 0, [?row]) = (r, a', g', h')"
    by (simp add: multi_rule_call_def)
  have h1: "Configuration (config (New ?cfg)) ''users'' = Some ?tc \<and> Columns ?tc = Some ?rules"
    by (simp add: New_def config_with_def)
  note th = C9_AnonymiseRow_does_not_mutate[OF c]
  from th have "h' ! 0 = [?row] ! 0"
    by simp
  then have i: "(h' ! 0) ''email'' = Some (VString ''john@example.com'')"
      "(h' ! 0) ''phone'' = Some (VString ''123-456-7890'')"
    by simp_all
  from th h1 have n: "r = Some (length [?row])"
    by blast
  have "dom (deref h' r) = dom (deref [?row] (Some 0))"
    using th by blast
  then have "''nonexistent'' \<notin> dom (deref h' r)"
    by (simp add: deref_def)
  then have d: "result_row multi_rule_call ''nonexistent'' = None"
    by (auto simp: result_row_def R)
  have "deref h' r ''id'' = deref [?row] (Some 0) ''id''"
    using th h1 by auto
  then have u: "result_row multi_rule_call ''id'' = Some (VInt 1)"
    by (simp add: result_row_def R deref_def)
  have e: "result_row multi_rule_call ''phone'' = Some VNil"
      "result_row multi_rule_call ''password'' = Some (VString ''redacted'')"
      "result_row multi_rule_call ''email'' = Some (VString ''Email'')"
    by (simp_all add: multi_rule_call_def anonymiser_eval)
  from i n d u e show ?thesis
    by (simp add: R)
qed

end
